theory Spec2Isabelle
  imports Main "HOL-Library.Word"
begin

unbundle bit_operations_syntax

section \<open>Machine model\<close>

text \<open>
  The string table of \<^verbatim>\<open>src/root/stringtable.c\<close> is embedded for the x86-64 target the
  source singles out in \<^verbatim>\<open>calcHash\<close> (little endian, LP64, IEEE double arithmetic in SSE
  registers).

  \<^item> \<^verbatim>\<open>uint32_t\<close> is \<open>32 word\<close>, \<^verbatim>\<open>uint8_t\<close> is \<open>8 word\<close>; their arithmetic wraps.
  \<^item> \<^verbatim>\<open>size_t\<close> values that count objects held in memory (lengths, \<^verbatim>\<open>tabledim\<close>, \<^verbatim>\<open>count\<close>,
    \<^verbatim>\<open>npools\<close>, \<^verbatim>\<open>nfill\<close>) are natural numbers: they stay far below \<open>2 ^ 64\<close>. Where the
    source relies on 64-bit wrap-around (\<^verbatim>\<open>-nbytes & 7\<close>, and \<^verbatim>\<open>res <<= 1\<close> in \<^verbatim>\<open>nextpow2\<close>,
    which runs on the caller's hint before anything is allocated) or on truncation to 32
    bits (\<^verbatim>\<open>uint32_t h = len\<close>, the packed \<^verbatim>\<open>vptr\<close>), words are used. \<^verbatim>\<open>tabledim\<close> is at
    least 32 from \<^verbatim>\<open>_init\<close> on, so \<^verbatim>\<open>tabledim - 1\<close> does not wrap.
  \<^item> A pool is the list of its bytes. A read or write outside an allocated array, and a
    dereference of \<^verbatim>\<open>NULL\<close>, is undefined behaviour in C; the model returns \<open>Inl Fault\<close>.
  \<^item> A loop that need not terminate is a \<^theory_text>\<open>partial_function\<close> in the option monad:
    \<open>None\<close> is divergence.
  \<^item> \<^verbatim>\<open>mem.malloc\<close>, \<^verbatim>\<open>mem.calloc\<close> and \<^verbatim>\<open>mem.realloc\<close> abort the process when memory is
    exhausted; the model describes the runs in which they return.
\<close>

type_synonym byte = "8 word"
type_synonym u32 = "32 word"

datatype fault = Fault

type_synonym 'a result = "fault + 'a"

subsection \<open>Reading and writing byte arrays\<close>

definition read_bytes :: "byte list \<Rightarrow> nat \<Rightarrow> nat \<Rightarrow> byte list result" where
  "read_bytes mem off n =
     (if off + n \<le> length mem then Inr (take n (drop off mem)) else Inl Fault)"

definition write_bytes :: "byte list \<Rightarrow> nat \<Rightarrow> byte list \<Rightarrow> byte list result" where
  "write_bytes mem off bs =
     (if off + length bs \<le> length mem
      then Inr (take off mem @ bs @ drop (off + length bs) mem)
      else Inl Fault)"

text \<open>A \<^verbatim>\<open>size_t\<close> in memory: eight bytes, least significant first.\<close>

fun enc_le :: "nat \<Rightarrow> nat \<Rightarrow> byte list" where
  "enc_le 0 n = []"
| "enc_le (Suc k) n = of_nat n # enc_le k (n div 256)"

fun dec_le :: "byte list \<Rightarrow> nat" where
  "dec_le [] = 0"
| "dec_le (b # bs) = unat b + 256 * dec_le bs"

section \<open>calcHash\<close>

definition m_const :: u32 where
  "m_const = 0x5bd1e995"

text \<open>The four-byte load: \<^verbatim>\<open>data[3] << 24 | data[2] << 16 | data[1] << 8 | data[0]\<close>, which
  is also what the unaligned \<^verbatim>\<open>*(uint32_t *)data\<close> reads on x86.\<close>

definition load32 :: "byte \<Rightarrow> byte \<Rightarrow> byte \<Rightarrow> byte \<Rightarrow> u32" where
  "load32 d0 d1 d2 d3 =
     push_bit 24 (ucast d3) OR push_bit 16 (ucast d2) OR push_bit 8 (ucast d1) OR ucast d0"

text \<open>The loop \<^verbatim>\<open>while (len >= 4)\<close>; the list is \<^verbatim>\<open>data\<close> with its \<^verbatim>\<open>len\<close> remaining bytes.\<close>

fun calcHash_loop :: "u32 \<Rightarrow> byte list \<Rightarrow> u32 \<times> byte list" where
  "calcHash_loop h (d0 # d1 # d2 # d3 # data) =
     (let k = load32 d0 d1 d2 d3;
          k = k * m_const;
          k = k XOR drop_bit 24 k;
          k = k * m_const;
          h = h * m_const;
          h = h XOR k
      in calcHash_loop h data)"
| "calcHash_loop h data = (h, data)"

text \<open>The \<^verbatim>\<open>switch (len & 3)\<close> with its fall-through cases 3, 2, 1; there is no case 0.\<close>

definition calcHash_tail :: "u32 \<Rightarrow> byte list \<Rightarrow> u32" where
  "calcHash_tail h data =
     (let l = length data AND 3;
          h = (if l = 3 then h XOR push_bit 16 (ucast (data ! 2)) else h);
          h = (if l = 3 \<or> l = 2 then h XOR push_bit 8 (ucast (data ! 1)) else h);
          h = (if l = 3 \<or> l = 2 \<or> l = 1 then (h XOR ucast (data ! 0)) * m_const else h)
      in h)"

definition calcHash :: "byte list \<Rightarrow> u32" where
  "calcHash key =
     (let h = of_nat (length key);
          (h, data) = calcHash_loop h key;
          h = calcHash_tail h data;
          h = h XOR drop_bit 13 h;
          h = h * m_const;
          h = h XOR drop_bit 15 h
      in h)"

subsection \<open>The hash as the specification words it\<close>

text \<open>Section 4.1 of the specification, read on its own: seed with the length, mix every
  full four-byte block, fold the remaining tail bytes (if any) and multiply once, finalize.\<close>

definition spec_block :: "byte list \<Rightarrow> nat \<Rightarrow> u32" where
  "spec_block bs i =
     (\<Sum>j\<leftarrow>[0..<4]. push_bit (8 * j) (ucast (bs ! (4 * i + j))))"

definition spec_mix :: "u32 \<Rightarrow> u32 \<Rightarrow> u32" where
  "spec_mix h k0 =
     (let k1 = k0 * 0x5bd1e995; k2 = k1 XOR drop_bit 24 k1; k3 = k2 * 0x5bd1e995
      in (h * 0x5bd1e995) XOR k3)"

definition spec_tail :: "u32 \<Rightarrow> byte list \<Rightarrow> u32" where
  "spec_tail h rest =
     (if rest = [] then h
      else foldl (\<lambda>a j. a XOR push_bit (8 * j) (ucast (rest ! j))) h [0..<length rest]
           * 0x5bd1e995)"

definition spec_final :: "u32 \<Rightarrow> u32" where
  "spec_final h0 =
     (let h1 = h0 XOR drop_bit 13 h0; h2 = h1 * 0x5bd1e995 in h2 XOR drop_bit 15 h2)"

definition spec_hash :: "byte list \<Rightarrow> u32" where
  "spec_hash bs =
     (let nblocks = length bs div 4;
          h = foldl spec_mix (of_nat (length bs)) (map (spec_block bs) [0..<nblocks])
      in spec_final (spec_tail h (drop (4 * nblocks) bs)))"

section \<open>The string table\<close>

subsection \<open>Data\<close>

definition POOL_BITS :: nat where
  "POOL_BITS = 12"

definition POOL_SIZE :: nat where
  "POOL_SIZE = 2 ^ POOL_BITS"

record StringEntry =
  hash :: u32
  vptr :: u32

text \<open>
  Modelled from the spec: \<^verbatim>\<open>struct StringValue\<close> and the members of \<^verbatim>\<open>struct StringTable\<close>
  are declared in \<^verbatim>\<open>stringtable.h\<close>, which is not among the sources. Section 3 of the
  specification gives the value record as a machine-word payload slot, the length as a
  \<^verbatim>\<open>usize\<close>, and then the bytes; with 8-byte words the header takes 16 bytes, the payload
  at offset 0, the length at offset 8 and the characters from offset 16 on.
\<close>

definition sizeof_StringValue :: nat where
  "sizeof_StringValue = 16"

definition off_ptrvalue :: nat where
  "off_ptrvalue = 0"

definition off_length :: nat where
  "off_length = 8"

definition off_lstring :: nat where
  "off_lstring = 16"

text \<open>
  The table owns the entry array and the pools. In C the arrays \<^verbatim>\<open>table\<close> and \<^verbatim>\<open>pools\<close>
  carry no length of their own: their allocated sizes are \<^verbatim>\<open>tabledim\<close> and \<^verbatim>\<open>npools\<close>.
\<close>

record StringTable =
  table :: "StringEntry list"
  tabledim :: nat
  pools :: "byte list list"
  npools :: nat
  nfill :: nat
  count :: nat

text \<open>A \<^verbatim>\<open>StringValue *\<close> is an address inside a pool: pool index and byte offset.
  \<^verbatim>\<open>NULL\<close> is \<open>None\<close>.\<close>

type_synonym sv_ptr = "nat \<times> nat"

subsection \<open>Sequencing\<close>

definition rbind :: "'a result \<Rightarrow> ('a \<Rightarrow> 'b result) \<Rightarrow> 'b result" where
  "rbind m f = (case m of Inl e \<Rightarrow> Inl e | Inr x \<Rightarrow> f x)"

text \<open>An operation that contains a probe loop either diverges (\<open>None\<close>), runs into
  undefined behaviour (\<open>Some (Inl Fault)\<close>) or returns (\<open>Some (Inr x)\<close>).\<close>

type_synonym 'a outcome = "'a result option"

definition obind :: "'a outcome \<Rightarrow> ('a \<Rightarrow> 'b outcome) \<Rightarrow> 'b outcome" where
  "obind m f = (case m of None \<Rightarrow> None | Some (Inl e) \<Rightarrow> Some (Inl e) | Some (Inr x) \<Rightarrow> f x)"

definition ret :: "'a \<Rightarrow> 'a outcome" where
  "ret x = Some (Inr x)"

definition fault :: "'a outcome" where
  "fault = Some (Inl Fault)"

subsection \<open>Field access through a record pointer\<close>

definition sv_read :: "StringTable \<Rightarrow> sv_ptr \<Rightarrow> nat \<Rightarrow> nat \<Rightarrow> byte list result" where
  "sv_read t sv off n =
     (case sv of (idx, base) \<Rightarrow>
        if idx < length (pools t) then read_bytes (pools t ! idx) (base + off) n
        else Inl Fault)"

text \<open>\<^verbatim>\<open>sv->length\<close>\<close>

definition sv_length :: "StringTable \<Rightarrow> sv_ptr \<Rightarrow> nat result" where
  "sv_length t sv = rbind (sv_read t sv off_length 8) (\<lambda>bs. Inr (dec_le bs))"

text \<open>The \<open>n\<close> bytes at \<^verbatim>\<open>sv->lstring\<close>\<close>

definition sv_lstring :: "StringTable \<Rightarrow> sv_ptr \<Rightarrow> nat \<Rightarrow> byte list result" where
  "sv_lstring t sv n = sv_read t sv off_lstring n"

text \<open>\<^verbatim>\<open>sv->ptrvalue\<close>, the payload slot\<close>

definition sv_ptrvalue :: "StringTable \<Rightarrow> sv_ptr \<Rightarrow> nat result" where
  "sv_ptrvalue t sv = rbind (sv_read t sv off_ptrvalue 8) (\<lambda>bs. Inr (dec_le bs))"

subsection \<open>allocValue and getValue\<close>

text \<open>\<^verbatim>\<open>mem.malloc\<close> returns uninitialised memory; the model fills a fresh pool with zeros,
  and no statement below depends on bytes that were never written.\<close>

definition new_pool :: "StringTable \<Rightarrow> nat \<Rightarrow> StringTable" where
  "new_pool t nbytes =
     t\<lparr>pools := pools t @ [replicate (if nbytes > POOL_SIZE then nbytes else POOL_SIZE) 0],
       npools := npools t + 1,
       nfill := 0\<rparr>"

text \<open>The stores through \<^verbatim>\<open>sv\<close>, the packing of the handle and the advance of the cursor.\<close>

definition store_value :: "StringTable \<Rightarrow> byte list \<Rightarrow> nat \<Rightarrow> (StringTable \<times> u32) result" where
  "store_value t s nbytes =
     (let idx = npools t - 1;
          sv = nfill t
      in if idx < length (pools t) then
           rbind (write_bytes (pools t ! idx) (sv + off_ptrvalue) (enc_le 8 0)) (\<lambda>p1.
           rbind (write_bytes p1 (sv + off_length) (enc_le 8 (length s))) (\<lambda>p2.
           rbind (write_bytes p2 (sv + off_lstring) s) (\<lambda>p3.
           rbind (write_bytes p3 (sv + off_lstring + length s) [0]) (\<lambda>p4.
             let v = (of_nat (push_bit POOL_BITS (npools t) OR nfill t) :: u32);
                 pad = unat ((- (of_nat nbytes :: 64 word)) AND 7)
             in Inr (t\<lparr>pools := (pools t)[idx := p4], nfill := nfill t + (nbytes + pad)\<rparr>, v)))))
         else Inl Fault)"

definition allocValue :: "StringTable \<Rightarrow> byte list \<Rightarrow> (StringTable \<times> u32) result" where
  "allocValue t s =
     (let nbytes = sizeof_StringValue + length s + 1;
          t1 = (if npools t = 0 \<or> nfill t + nbytes > POOL_SIZE then new_pool t nbytes else t)
      in store_value t1 s nbytes)"

definition getValue :: "StringTable \<Rightarrow> u32 \<Rightarrow> sv_ptr option result" where
  "getValue t v =
     (if v = 0 then Inr None
      else let idx = unat (drop_bit POOL_BITS v - 1);
               off = unat (v AND (of_nat POOL_SIZE - 1))
           in if idx < length (pools t) then Inr (Some (idx, off)) else Inl Fault)"

subsection \<open>Construction\<close>

text \<open>\<^verbatim>\<open>nextpow2\<close> works on \<^verbatim>\<open>size_t\<close>, a 64-bit word here because the hint of \<^verbatim>\<open>_init\<close> is any
  value the caller passes: \<^verbatim>\<open>res <<= 1\<close> wraps to 0 after \<open>2 ^ 63\<close>, and then the loop
  does not end.\<close>

partial_function (option) nextpow2_loop :: "64 word \<Rightarrow> 64 word \<Rightarrow> 64 word option" where
  "nextpow2_loop res v = (if res < v then nextpow2_loop (push_bit 1 res) v else Some res)"

declare nextpow2_loop.simps [code]

definition nextpow2 :: "64 word \<Rightarrow> 64 word option" where
  "nextpow2 v = nextpow2_loop 1 v"

text \<open>
  The arithmetic on \<^verbatim>\<open>double\<close> of \<^verbatim>\<open>(size_t)(size / loadFactor)\<close>: the conversion of
  \<^verbatim>\<open>size\<close> and the division round to the nearest number with 53 significant binary
  digits, ties to the even one; the conversion back truncates, and is undefined when the
  quotient does not fit \<^verbatim>\<open>size_t\<close>.

  \<^item> \<open>blen n\<close> is the number of binary digits of \<open>n\<close>.
  \<^item> \<open>rne N D\<close> is the integer nearest to \<open>N / D\<close>, the even one at a tie.
  \<^item> \<open>round53 N D\<close> is \<open>N / D\<close> rounded to 53 significant digits, for a quotient that is an
    integer or at least \<open>2 ^ 52\<close> (the result is then an integer).
  \<^item> \<^verbatim>\<open>loadFactor\<close> is the double nearest to 0.8, which is \<open>3602879701896397 / 2 ^ 52\<close>
    (\<^verbatim>\<open>0x3FE999999999999A\<close>).
  \<^item> \<open>div_loadFactor\<close> rounds the quotient scaled by \<open>2 ^ 52\<close>: the quotient is 0 or at
    least 1, so no digit below \<open>2 ^ -52\<close> is kept.
\<close>

fun blen :: "nat \<Rightarrow> nat" where
  "blen n = (if n = 0 then 0 else Suc (blen (n div 2)))"

declare blen.simps [simp del]

definition rne :: "nat \<Rightarrow> nat \<Rightarrow> nat" where
  "rne N D =
     (let q = N div D; r = N mod D
      in if D < 2 * r \<or> (2 * r = D \<and> odd q) then q + 1 else q)"

definition round53 :: "nat \<Rightarrow> nat \<Rightarrow> nat" where
  "round53 N D = (let sh = blen (N div D) - 53 in rne N (D * 2 ^ sh) * 2 ^ sh)"

definition loadFactor_mant :: nat where
  "loadFactor_mant = 3602879701896397"

text \<open>\<^verbatim>\<open>(double)size\<close>\<close>

definition to_double :: "nat \<Rightarrow> nat" where
  "to_double n = round53 n 1"

text \<open>\<^verbatim>\<open>(size_t)(size / loadFactor)\<close>\<close>

definition div_loadFactor :: "nat \<Rightarrow> nat result" where
  "div_loadFactor size0 =
     (let a = to_double size0;
          y = round53 (a * 2 ^ 104) loadFactor_mant;
          q = y div 2 ^ 52
      in if q < 2 ^ 64 then Inr q else Inl Fault)"

text \<open>
  \<^verbatim>\<open>count > tabledim * loadFactor\<close>: for a power of two \<open>tabledim < 2 ^ 52\<close> the product
  is exact and exceeds \<open>4 * tabledim / 5\<close> by less than \<open>1 / 5\<close>, while
  \<open>4 * tabledim / 5\<close> is no integer; so an integer \<open>count\<close> is above the product exactly
  when \<open>5 * count > 4 * tabledim\<close>.
\<close>

definition over_loadFactor :: "nat \<Rightarrow> nat \<Rightarrow> bool" where
  "over_loadFactor cnt dim = (5 * cnt > 4 * dim)"

definition empty_entry :: StringEntry where
  "empty_entry = \<lparr>hash = 0, vptr = 0\<rparr>"

text \<open>\<^verbatim>\<open>_init\<close>; the hint is a \<^verbatim>\<open>size_t\<close>, a natural number below \<open>2 ^ 64\<close>.\<close>

definition init_st :: "nat \<Rightarrow> StringTable outcome" where
  "init_st size0 =
     obind (Some (div_loadFactor size0)) (\<lambda>q.
       case nextpow2 (of_nat q) of
         None \<Rightarrow> None
       | Some size1 \<Rightarrow>
           let size2 = (if size1 < 32 then 32 else size1)
           in ret \<lparr>table = replicate (unat size2) empty_entry, tabledim = unat size2,
                    pools = [], npools = 0, nfill = 0, count = 0\<rparr>)"

subsection \<open>findSlot\<close>

text \<open>The condition of the \<^verbatim>\<open>if\<close> in the probe loop, evaluated left to right with the
  short-circuit operators of the source.\<close>

definition slot_hit :: "StringTable \<Rightarrow> u32 \<Rightarrow> byte list \<Rightarrow> nat \<Rightarrow> bool result" where
  "slot_hit t h s i =
     (if i < length (table t) then
        let e = table t ! i in
        if vptr e = 0 then Inr True
        else if hash e \<noteq> h then Inr False
        else rbind (getValue t (vptr e)) (\<lambda>svo.
               case svo of
                 None \<Rightarrow> Inl Fault
               | Some sv \<Rightarrow>
                   rbind (sv_length t sv) (\<lambda>n.
                     if n \<noteq> length s then Inr False
                     else rbind (sv_lstring t sv (length s)) (\<lambda>bs. Inr (bs = s))))
      else Inl Fault)"

partial_function (option)
  findSlot_loop :: "StringTable \<Rightarrow> u32 \<Rightarrow> byte list \<Rightarrow> nat \<Rightarrow> nat \<Rightarrow> nat outcome"
where
  "findSlot_loop t h s i j =
     (case slot_hit t h s i of
        Inl e \<Rightarrow> Some (Inl e)
      | Inr hit \<Rightarrow>
          if hit then Some (Inr i)
          else findSlot_loop t h s ((i + j) AND (tabledim t - 1)) (j + 1))"

declare findSlot_loop.simps [code]

definition findSlot :: "StringTable \<Rightarrow> u32 \<Rightarrow> byte list \<Rightarrow> nat outcome" where
  "findSlot t h s = findSlot_loop t h s (unat h AND (tabledim t - 1)) 1"

text \<open>The loop variables \<open>(i, j)\<close> of \<^verbatim>\<open>findSlot\<close> after \<open>k\<close> unsuccessful probes.\<close>

fun probe_state :: "nat \<Rightarrow> nat \<Rightarrow> nat \<Rightarrow> nat \<times> nat" where
  "probe_state dim h 0 = (h AND (dim - 1), 1)"
| "probe_state dim h (Suc k) =
     (case probe_state dim h k of (i, j) \<Rightarrow> ((i + j) AND (dim - 1), j + 1))"

definition probe :: "nat \<Rightarrow> nat \<Rightarrow> nat \<Rightarrow> nat" where
  "probe dim h k = fst (probe_state dim h k)"

subsection \<open>grow\<close>

definition entry_at :: "StringEntry list \<Rightarrow> nat \<Rightarrow> StringEntry outcome" where
  "entry_at tab i = (if i < length tab then ret (tab ! i) else fault)"

definition set_entry :: "StringTable \<Rightarrow> nat \<Rightarrow> StringEntry \<Rightarrow> StringTable outcome" where
  "set_entry t i e = (if i < length (table t) then ret (t\<lparr>table := (table t)[i := e]\<rparr>) else fault)"

text \<open>The loop \<^verbatim>\<open>for (i = 0; i < odim; ++i)\<close> with \<open>n\<close> iterations left.\<close>

fun grow_loop :: "StringTable \<Rightarrow> StringEntry list \<Rightarrow> nat \<Rightarrow> nat \<Rightarrow> StringTable outcome" where
  "grow_loop t otab i 0 = ret t"
| "grow_loop t otab i (Suc n) =
     obind (entry_at otab i) (\<lambda>se.
       if vptr se = 0 then grow_loop t otab (i + 1) n
       else
         obind (Some (getValue t (vptr se))) (\<lambda>svo.
           case svo of
             None \<Rightarrow> fault
           | Some sv \<Rightarrow>
               obind (Some (sv_length t sv)) (\<lambda>len.
               obind (Some (sv_lstring t sv len)) (\<lambda>key.
               obind (findSlot t (hash se) key) (\<lambda>slot.
               obind (set_entry t slot se) (\<lambda>t'.
                 grow_loop t' otab (i + 1) n))))))"

definition grow :: "StringTable \<Rightarrow> StringTable outcome" where
  "grow t =
     (let odim = tabledim t;
          otab = table t;
          t1 = t\<lparr>tabledim := tabledim t * 2,
                 table := replicate (tabledim t * 2) empty_entry\<rparr>
      in grow_loop t1 otab 0 odim)"

subsection \<open>lookup, update, insert\<close>

definition lookup_st :: "StringTable \<Rightarrow> byte list \<Rightarrow> (StringTable \<times> sv_ptr option) outcome" where
  "lookup_st t s =
     (let h = calcHash s in
      obind (findSlot t h s) (\<lambda>i.
      obind (entry_at (table t) i) (\<lambda>e.
      obind (Some (getValue t (vptr e))) (\<lambda>sv. ret (t, sv)))))"

text \<open>The code shared by \<^verbatim>\<open>update\<close> and \<^verbatim>\<open>insert\<close> once the slot was found empty.
  First the stores \<^verbatim>\<open>table[i].hash = hash; table[i].vptr = allocValue(s, length);\<close> and the
  \<^verbatim>\<open>return getValue(table[i].vptr)\<close>.\<close>

definition fill_slot ::
  "StringTable \<Rightarrow> u32 \<Rightarrow> byte list \<Rightarrow> nat \<Rightarrow> (StringTable \<times> sv_ptr option) outcome" where
  "fill_slot t h s i =
     obind (set_entry t i ((table t ! i)\<lparr>hash := h\<rparr>)) (\<lambda>t4.
     obind (Some (allocValue t4 s)) (\<lambda>(t5, v).
     obind (set_entry t5 i ((table t5 ! i)\<lparr>vptr := v\<rparr>)) (\<lambda>t6.
     obind (entry_at (table t6) i) (\<lambda>e.
     obind (Some (getValue t6 (vptr e))) (\<lambda>sv. ret (t6, sv))))))"

text \<open>Before them, \<^verbatim>\<open>if (++count > tabledim * loadFactor) { grow(); i = findSlot(...); }\<close>.\<close>

definition add_entry ::
  "StringTable \<Rightarrow> u32 \<Rightarrow> byte list \<Rightarrow> nat \<Rightarrow> (StringTable \<times> sv_ptr option) outcome" where
  "add_entry t h s i =
     (let t1 = t\<lparr>count := count t + 1\<rparr> in
      obind (if over_loadFactor (count t1) (tabledim t1)
             then obind (grow t1) (\<lambda>t2. obind (findSlot t2 h s) (\<lambda>i2. ret (t2, i2)))
             else ret (t1, i)) (\<lambda>(t3, i3). fill_slot t3 h s i3))"

definition update_st :: "StringTable \<Rightarrow> byte list \<Rightarrow> (StringTable \<times> sv_ptr option) outcome" where
  "update_st t s =
     (let h = calcHash s in
      obind (findSlot t h s) (\<lambda>i.
      obind (entry_at (table t) i) (\<lambda>e.
        if vptr e = 0 then add_entry t h s i
        else obind (Some (getValue t (vptr e))) (\<lambda>sv. ret (t, sv)))))"

definition insert_st :: "StringTable \<Rightarrow> byte list \<Rightarrow> (StringTable \<times> sv_ptr option) outcome" where
  "insert_st t s =
     (let h = calcHash s in
      obind (findSlot t h s) (\<lambda>i.
      obind (entry_at (table t) i) (\<lambda>e.
        if vptr e \<noteq> 0 then ret (t, None)
        else add_entry t h s i)))"


section \<open>Notions used to state the properties\<close>

subsection \<open>Triangular numbers\<close>

fun tri :: "nat \<Rightarrow> nat" where
  "tri 0 = 0"
| "tri (Suc k) = tri k + Suc k"

subsection \<open>Records in the pools\<close>

text \<open>The size \<^verbatim>\<open>nbytes\<close> of the record of a string, and the bytes \<^verbatim>\<open>allocValue\<close> stores:
  a null payload, the length, the characters and the terminator.\<close>

definition nbytes_of :: "byte list \<Rightarrow> nat" where
  "nbytes_of s = sizeof_StringValue + length s + 1"

definition round8 :: "nat \<Rightarrow> nat" where
  "round8 n = ((n + 7) div 8) * 8"

definition record_bytes :: "byte list \<Rightarrow> byte list" where
  "record_bytes s = enc_le 8 0 @ enc_le 8 (length s) @ s @ [0]"

text \<open>The address a non-null handle decodes to in \<^verbatim>\<open>getValue\<close>.\<close>

definition handle_ptr :: "u32 \<Rightarrow> sv_ptr" where
  "handle_ptr v = (unat (drop_bit POOL_BITS v - 1), unat (v AND (of_nat POOL_SIZE - 1)))"

text \<open>The length field and the characters of the record at an address, and the condition
  that the record lies inside its pool and, in the current pool, below the bump cursor.\<close>

definition rec_len :: "byte list list \<Rightarrow> sv_ptr \<Rightarrow> nat" where
  "rec_len ps sv = (case sv of (idx, base) \<Rightarrow> dec_le (take 8 (drop (base + off_length) (ps ! idx))))"

definition rec_key :: "byte list list \<Rightarrow> sv_ptr \<Rightarrow> byte list" where
  "rec_key ps sv =
     (case sv of (idx, base) \<Rightarrow> take (rec_len ps sv) (drop (base + off_lstring) (ps ! idx)))"

definition rec_end :: "byte list list \<Rightarrow> sv_ptr \<Rightarrow> nat" where
  "rec_end ps sv = snd sv + sizeof_StringValue + rec_len ps sv + 1"

definition rec_ok :: "byte list list \<Rightarrow> nat \<Rightarrow> sv_ptr \<Rightarrow> bool" where
  "rec_ok ps fill sv =
     (fst sv < length ps \<and> rec_end ps sv \<le> length (ps ! fst sv) \<and>
      (fst sv + 1 = length ps \<longrightarrow> rec_end ps sv \<le> fill))"

subsection \<open>The table as a list of keys\<close>

text \<open>What a slot holds: nothing, or a stored hash together with the characters its handle
  points to.\<close>

definition slot_of :: "byte list list \<Rightarrow> StringEntry \<Rightarrow> (u32 \<times> byte list) option" where
  "slot_of ps e = (if vptr e = 0 then None else Some (hash e, rec_key ps (handle_ptr (vptr e))))"

definition slots :: "StringTable \<Rightarrow> (u32 \<times> byte list) option list" where
  "slots t = map (slot_of (pools t)) (table t)"

text \<open>The probe for \<open>k\<close> stops at slot \<open>i\<close>; the \<open>n\<close>-th probe from \<open>h\<close> is the first to stop.\<close>

definition stops_at :: "'k option list \<Rightarrow> 'k \<Rightarrow> nat \<Rightarrow> bool" where
  "stops_at A k i = (A ! i = None \<or> A ! i = Some k)"

definition first_stop :: "'k option list \<Rightarrow> nat \<Rightarrow> 'k \<Rightarrow> nat \<Rightarrow> bool" where
  "first_stop A h k n =
     (stops_at A k (probe (length A) h n) \<and>
      (\<forall>n'<n. \<not> stops_at A k (probe (length A) h n')))"

text \<open>Every key of the list is reached by its own probe sequence.\<close>

definition placed_keys :: "(u32 \<times> byte list) option list \<Rightarrow> bool" where
  "placed_keys A =
     (\<forall>i<length A. \<forall>k. A ! i = Some k \<longrightarrow>
        (\<exists>n. first_stop A (unat (fst k)) k n \<and> probe (length A) (unat (fst k)) n = i))"

subsection \<open>Well-formed tables\<close>

definition table_ok :: "StringTable \<Rightarrow> bool" where
  "table_ok t = (length (table t) = tabledim t \<and> (\<exists>m. tabledim t = 2 ^ m))"

definition pools_ok :: "StringTable \<Rightarrow> bool" where
  "pools_ok t = (length (pools t) = npools t \<and> (\<forall>p\<in>set (pools t). POOL_SIZE \<le> length p))"

definition entries_ok :: "StringTable \<Rightarrow> bool" where
  "entries_ok t =
     (\<forall>e\<in>set (table t). vptr e \<noteq> 0 \<longrightarrow> rec_ok (pools t) (nfill t) (handle_ptr (vptr e)))"

definition entry_key :: "StringTable \<Rightarrow> StringEntry \<Rightarrow> byte list" where
  "entry_key t e = rec_key (pools t) (handle_ptr (vptr e))"

text \<open>Every occupied slot is the one \<^verbatim>\<open>findSlot\<close> returns for the stored hash and the stored
  characters of its entry.\<close>

definition placed :: "StringTable \<Rightarrow> bool" where
  "placed t =
     (\<forall>i<length (table t).
        vptr (table t ! i) \<noteq> 0 \<longrightarrow>
        findSlot t (hash (table t ! i)) (entry_key t (table t ! i)) = ret i)"

definition occupied :: "StringTable \<Rightarrow> nat" where
  "occupied t = length (filter (\<lambda>e. vptr e \<noteq> 0) (table t))"

definition inv :: "StringTable \<Rightarrow> bool" where
  "inv t = (table_ok t \<and> pools_ok t \<and> entries_ok t \<and> placed t \<and> occupied t < tabledim t)"

text \<open>A table as the operations leave it: the structure above, \<^verbatim>\<open>count\<close> is the number of
  occupied slots, and the load factor is respected.\<close>

definition wf :: "StringTable \<Rightarrow> bool" where
  "wf t = (inv t \<and> count t = occupied t \<and> \<not> over_loadFactor (count t) (tabledim t))"

text \<open>The packed handle has 20 bits for the pool number: one more pool can be numbered.\<close>

definition handle_room :: "StringTable \<Rightarrow> bool" where
  "handle_room t = (npools t + 1 < 2 ^ (32 - POOL_BITS))"

text \<open>A length that fits a \<^verbatim>\<open>size_t\<close> together with its record header.\<close>

definition size_t_ok :: "byte list \<Rightarrow> bool" where
  "size_t_ok s = (nbytes_of s < 2 ^ 64)"

subsection \<open>What allocValue does\<close>

text \<open>A pool with the record of \<open>s\<close> stored at offset \<open>off\<close>; the condition under which
  \<^verbatim>\<open>allocValue\<close> opens a new pool; the pool it opens; the offset it allocates at.\<close>

definition put_record :: "byte list \<Rightarrow> nat \<Rightarrow> byte list \<Rightarrow> byte list" where
  "put_record p off s = take off p @ record_bytes s @ drop (off + nbytes_of s) p"

definition new_pool_needed :: "StringTable \<Rightarrow> byte list \<Rightarrow> bool" where
  "new_pool_needed t s = (npools t = 0 \<or> nfill t + nbytes_of s > POOL_SIZE)"

definition fresh_pool :: "byte list \<Rightarrow> byte list" where
  "fresh_pool s = replicate (max (nbytes_of s) POOL_SIZE) 0"

definition alloc_base :: "StringTable \<Rightarrow> byte list \<Rightarrow> nat" where
  "alloc_base t s = (if new_pool_needed t s then 0 else nfill t)"

definition alloc_pools :: "StringTable \<Rightarrow> byte list \<Rightarrow> byte list list" where
  "alloc_pools t s =
     (if new_pool_needed t s then pools t @ [put_record (fresh_pool s) 0 s]
      else (pools t)[npools t - 1 := put_record (pools t ! (npools t - 1)) (nfill t) s])"

definition alloc_npools :: "StringTable \<Rightarrow> byte list \<Rightarrow> nat" where
  "alloc_npools t s = (if new_pool_needed t s then npools t + 1 else npools t)"

definition alloc_handle :: "StringTable \<Rightarrow> byte list \<Rightarrow> u32" where
  "alloc_handle t s = of_nat (push_bit POOL_BITS (alloc_npools t s) OR alloc_base t s)"

definition alloc_state :: "StringTable \<Rightarrow> byte list \<Rightarrow> StringTable" where
  "alloc_state t s =
     t\<lparr>pools := alloc_pools t s, npools := alloc_npools t s,
       nfill := alloc_base t s + round8 (nbytes_of s)\<rparr>"

text \<open>The table after slot \<open>i\<close> received the hash \<open>h\<close> and the handle of the newly
  allocated record of \<open>s\<close>.\<close>

definition filled :: "StringTable \<Rightarrow> nat \<Rightarrow> u32 \<Rightarrow> byte list \<Rightarrow> StringTable" where
  "filled t i h s =
     (alloc_state t s)\<lparr>table := (table t)[i := \<lparr>hash = h, vptr = alloc_handle t s\<rparr>]\<rparr>"

text \<open>The address of the record \<^verbatim>\<open>allocValue\<close> creates.\<close>

definition alloc_ptr :: "StringTable \<Rightarrow> byte list \<Rightarrow> sv_ptr" where
  "alloc_ptr t s = (alloc_npools t s - 1, alloc_base t s)"

subsection \<open>Rehashing\<close>

text \<open>The occupied entries of an entry array.\<close>

definition live :: "StringEntry list \<Rightarrow> StringEntry set" where
  "live tab = {e \<in> set tab. vptr e \<noteq> 0}"

text \<open>The state of \<^verbatim>\<open>grow\<close> on the old table \<open>t0\<close> after the first \<open>i\<close> old entries were
  moved: only the entry array and its dimension differ from \<open>t0\<close>, and the new array holds
  exactly the occupied ones among those \<open>i\<close> entries, each where its own probe sequence
  finds it.\<close>

definition rehashed :: "StringTable \<Rightarrow> nat \<Rightarrow> StringTable \<Rightarrow> bool" where
  "rehashed t0 i tn =
     (pools tn = pools t0 \<and> npools tn = npools t0 \<and> nfill tn = nfill t0 \<and>
      count tn = count t0 \<and> tabledim tn = tabledim t0 * 2 \<and>
      length (table tn) = tabledim t0 * 2 \<and>
      placed_keys (slots tn) \<and>
      live (table tn) = live (take i (table t0)) \<and>
      occupied tn = length (filter (\<lambda>e. vptr e \<noteq> 0) (take i (table t0))))"

subsection \<open>Reachable tables\<close>



subsection \<open>A small table\<close>

text \<open>The table \<^verbatim>\<open>_init(4)\<close> constructs, and the keys \<^verbatim>\<open>"foo"\<close> and \<^verbatim>\<open>"bar"\<close>.\<close>

definition table_4 :: StringTable where
  "table_4 = \<lparr>table = replicate 32 empty_entry, tabledim = 32,
              pools = [], npools = 0, nfill = 0, count = 0\<rparr>"

definition key_foo :: "byte list" where
  "key_foo = [102, 111, 111]"

definition key_bar :: "byte list" where
  "key_bar = [98, 97, 114]"


section \<open>The hash function computes the specified algorithm\<close>

lemma load32_sum: "spec_block (d0 # d1 # d2 # d3 # data) 0 = load32 d0 d1 d2 d3"
proof -
  have a: "push_bit 8 (ucast d1 :: u32) + ucast d0 = push_bit 8 (ucast d1) OR ucast d0"
    by (rule disjunctive_add) (auto simp: bit_simps dest: bit_imp_le_length)
  have b: "push_bit 16 (ucast d2 :: u32) + (push_bit 8 (ucast d1) OR ucast d0)
         = push_bit 16 (ucast d2) OR (push_bit 8 (ucast d1) OR ucast d0)"
    by (rule disjunctive_add) (auto simp: bit_simps dest: bit_imp_le_length)
  have c: "push_bit 24 (ucast d3 :: u32)
           + (push_bit 16 (ucast d2) OR (push_bit 8 (ucast d1) OR ucast d0))
         = push_bit 24 (ucast d3)
           OR (push_bit 16 (ucast d2) OR (push_bit 8 (ucast d1) OR ucast d0))"
    by (rule disjunctive_add) (auto simp: bit_simps dest: bit_imp_le_length)
  have "spec_block (d0 # d1 # d2 # d3 # data) 0 =
     push_bit 24 (ucast d3 :: u32) + (push_bit 16 (ucast d2) + (push_bit 8 (ucast d1) + ucast d0))"
    by (simp add: spec_block_def upt_rec)
  then show ?thesis
    by (simp add: load32_def a b c)
qed

lemma spec_block_Suc: "spec_block (d0 # d1 # d2 # d3 # data) (Suc i) = spec_block data i"
  by (simp add: spec_block_def)

lemma calcHash_loop_spec:
  "calcHash_loop h bs =
     (foldl spec_mix h (map (spec_block bs) [0..<length bs div 4]),
      drop (4 * (length bs div 4)) bs)"
proof (induction h bs rule: calcHash_loop.induct)
  case (1 h d0 d1 d2 d3 data)
  have d: "(4 + length data) div 4 = Suc (length data div 4)" by simp
  have e: "drop (4 + k) (d0 # d1 # d2 # d3 # data) = drop k data" for k
    by (simp add: eval_nat_numeral)
  have "[0..<Suc (length data div 4)] = 0 # map Suc [0..<length data div 4]"
    by (simp add: upt_conv_Cons map_Suc_upt del: upt_Suc)
  then show ?case using 1
    by (simp add: d e load32_sum spec_block_Suc spec_mix_def m_const_def Let_def o_def
             del: upt_Suc)
qed simp_all

lemma and_3_small: "n < 4 \<Longrightarrow> n AND 3 = (n::nat)"
proof -
  assume "n < 4"
  have "n AND 3 = n AND mask 2" by (simp add: mask_eq_exp_minus_1)
  also have "\<dots> = n mod 4" by (simp add: take_bit_eq_mod flip: take_bit_eq_mask)
  finally show ?thesis using \<open>n < 4\<close> by simp
qed

lemma calcHash_tail_spec:
  assumes "length data < 4"
  shows "calcHash_tail h data = spec_tail h data"
proof -
  have l: "length data AND 3 = length data"
    using assms by (rule and_3_small)
  consider "data = []" | a where "data = [a]" | a b where "data = [a, b]"
    | a b c where "data = [a, b, c]"
    using assms by (cases "(h, data)" rule: calcHash_loop.cases) auto
  then show ?thesis
  proof cases
    case 1 then show ?thesis by (simp add: calcHash_tail_def spec_tail_def)
  next
    case 2 then show ?thesis by (simp add: calcHash_tail_def spec_tail_def m_const_def)
  next
    case 3
    have "calcHash_tail h [a, b] = ((h XOR push_bit 8 (ucast b)) XOR ucast a) * m_const"
      unfolding calcHash_tail_def using l 3 by (simp add: Let_def)
    then show ?thesis using 3 by (simp add: spec_tail_def m_const_def upt_rec ac_simps)
  next
    case 4
    have "calcHash_tail h [a, b, c] =
           (((h XOR push_bit 16 (ucast c)) XOR push_bit 8 (ucast b)) XOR ucast a) * m_const"
      unfolding calcHash_tail_def using l 4 by (simp add: Let_def)
    then show ?thesis using 4 by (simp add: spec_tail_def m_const_def upt_rec ac_simps)
  qed
qed

section \<open>The probe sequence\<close>

lemma and_pow2_minus_1: "x AND (2 ^ m - 1) = x mod 2 ^ m" for x :: nat
proof -
  have "x AND (2 ^ m - 1) = x AND mask m" by (simp only: mask_eq_exp_minus_1)
  also have "\<dots> = take_bit m x" by (simp only: take_bit_eq_mask)
  also have "\<dots> = x mod 2 ^ m" by (simp only: take_bit_eq_mod)
  finally show ?thesis .
qed

lemma probe_state_tri:
  "probe_state (2 ^ m) h k = ((h + tri k) mod 2 ^ m, k + 1)"
proof (induction k)
  case 0
  show ?case using and_pow2_minus_1[of h m] by simp
next
  case (Suc k)
  have "((h + tri k) mod 2 ^ m + (k + 1)) mod 2 ^ m = (h + tri k + (k + 1)) mod 2 ^ m"
    by (rule mod_add_left_eq)
  then show ?case using Suc and_pow2_minus_1[of "(h + tri k) mod 2 ^ m + (k + 1)" m]
    by (simp add: add.assoc)
qed

lemma probe_tri: "probe (2 ^ m) h k = (h + tri k) mod 2 ^ m"
  by (simp add: probe_def probe_state_tri)

lemma probe_less: "probe (2 ^ m) h k < 2 ^ m"
  by (simp add: probe_tri)

lemma tri_double: "2 * tri k = k * (k + 1)"
  by (induction k) auto

lemma tri_mono: "a \<le> b \<Longrightarrow> tri a \<le> tri b"
  by (induction b) (auto simp: le_Suc_eq)

lemma tri_diff: 
  assumes "a \<le> b"
  shows "2 * (tri b - tri a) = (b - a) * (a + b + 1)"
proof -
  obtain d where d: "b = a + d" using assms le_Suc_ex by blast
  have "2 * (tri b - tri a) = b * (b + 1) - a * (a + 1)"
    using tri_double[of a] tri_double[of b] by (simp only: right_diff_distrib')
  also have "\<dots> = (b - a) * (a + b + 1)"
    unfolding d by (simp add: algebra_simps)
  finally show ?thesis .
qed

lemma pow2_dvd_odd_mult:
  assumes "2 ^ n dvd x * y" "odd (x::nat)"
  shows "2 ^ n dvd y"
proof -
  have "coprime (2 ^ n) x" using assms(2) by simp
  then show ?thesis using assms(1) by (simp add: coprime_dvd_mult_right_iff)
qed

lemma tri_inj_mod:
  assumes "a < b" "b < 2 ^ m" "(h + tri a) mod 2 ^ m = (h + tri b) mod 2 ^ m"
  shows False
proof -
  have le: "h + tri a \<le> h + tri b" using assms(1) by (simp add: tri_mono)
  from assms(3) have "(h + tri b) mod 2 ^ m = (h + tri a) mod 2 ^ m" by simp
  then have "2 ^ m dvd (h + tri b) - (h + tri a)"
    using mod_eq_dvd_iff_nat[OF le, of "2 ^ m"] by simp
  then have "2 ^ m dvd tri b - tri a" by simp
  then have "2 * 2 ^ m dvd 2 * (tri b - tri a)" by (rule mult_dvd_mono[OF dvd_refl])
  then have dv: "2 ^ (Suc m) dvd (b - a) * (a + b + 1)"
    using assms(1) tri_diff[of a b] by simp
  have pos1: "0 < b - a" and lt1: "b - a < 2 ^ Suc m" using assms by auto
  have pos2: "0 < a + b + 1" and lt2: "a + b + 1 < 2 ^ Suc m" using assms by auto
  show False
  proof (cases "odd (b - a)")
    case True
    with dv have "2 ^ Suc m dvd a + b + 1" by (rule pow2_dvd_odd_mult)
    then have "2 ^ Suc m \<le> a + b + 1" using pos2 by (simp add: dvd_imp_le)
    with lt2 show False by simp
  next
    case False
    then have od: "odd (a + b + 1)" using assms(1) by auto
    from dv have "2 ^ Suc m dvd (a + b + 1) * (b - a)" by (simp add: mult.commute)
    then have "2 ^ Suc m dvd b - a" using od by (rule pow2_dvd_odd_mult)
    then have "2 ^ Suc m \<le> b - a" using pos1 by (simp add: dvd_imp_le)
    with lt1 show False by simp
  qed
qed

lemma probe_inj_on: "inj_on (probe (2 ^ m) h) {..<2 ^ m}"
proof (rule inj_onI)
  fix a b assume a: "a \<in> {..<(2::nat) ^ m}" and b: "b \<in> {..<(2::nat) ^ m}"
    and eq: "probe (2 ^ m) h a = probe (2 ^ m) h b"
  show "a = b"
  proof (rule ccontr)
    assume "a \<noteq> b"
    then consider "a < b" | "b < a" by linarith
    then show False
    proof cases
      case 1 then show False using tri_inj_mod[of a b m h] b eq by (simp add: probe_tri)
    next
      case 2 then show False using tri_inj_mod[of b a m h] a eq by (simp add: probe_tri)
    qed
  qed
qed

lemma probe_bij: "bij_betw (probe (2 ^ m) h) {..<2 ^ m} {..<2 ^ m}"
proof -
  have sub: "probe (2 ^ m) h ` {..<2 ^ m} \<subseteq> {..<2 ^ m}"
    by (auto simp: probe_less)
  have "card (probe (2 ^ m) h ` {..<2 ^ m}) = card {..<(2::nat) ^ m}"
    by (rule card_image) (rule probe_inj_on)
  then have "probe (2 ^ m) h ` {..<2 ^ m} = {..<2 ^ m}"
    using sub by (simp add: card_subset_eq)
  then show ?thesis by (simp add: bij_betw_def probe_inj_on)
qed

section \<open>Byte arrays\<close>

lemma length_enc_le [simp]: "length (enc_le k n) = k"
  by (induction k arbitrary: n) auto

lemma dec_enc_le: "dec_le (enc_le k n) = n mod 256 ^ k"
proof (induction k arbitrary: n)
  case 0 then show ?case by simp
next
  case (Suc k)
  have a: "unat (of_nat n :: byte) = n mod 256" by (simp add: unat_of_nat)
  have "dec_le (enc_le (Suc k) n) = n mod 256 + 256 * ((n div 256) mod 256 ^ k)"
    using Suc[of "n div 256"] a by simp
  also have "\<dots> = n mod (256 * 256 ^ k)"
    by (simp only: mod_mult2_eq)
  finally show ?case by simp
qed

lemma dec_enc_le_8: "n < 2 ^ 64 \<Longrightarrow> dec_le (enc_le 8 n) = n"
  using dec_enc_le[of 8 n] by simp

lemma length_write_bytes: "write_bytes m off bs = Inr m' \<Longrightarrow> length m' = length m"
  by (auto simp: write_bytes_def split: if_splits)

lemma write_bytes_append:
  assumes "off + length a + length b \<le> length m"
  shows "rbind (write_bytes m off a) (\<lambda>m1. write_bytes m1 (off + length a) b)
         = write_bytes m off (a @ b)"
  using assms by (simp add: write_bytes_def rbind_def drop_append ac_simps)


lemma take_drop_append_inside:
  "k + n \<le> length xs \<Longrightarrow> take n (drop k (xs @ ys)) = take n (drop k xs)"
  by simp

lemma take_drop_take_below:
  "k + n \<le> off \<Longrightarrow> take n (drop k (take off m)) = take n (drop k m)"
  by (simp add: drop_take min_def)

lemma drop_append_exact:
  "length xs = off \<Longrightarrow> drop (off + k) (xs @ ys) = drop k ys"
  by simp

lemma read_write_inside:
  assumes "off + length bs \<le> length m" "k + n \<le> length bs"
  shows "take n (drop (off + k) (take off m @ bs @ drop (off + length bs) m)) = take n (drop k bs)"
proof -
  have "length (take off m) = off" using assms(1) by simp
  then have "drop (off + k) (take off m @ bs @ drop (off + length bs) m)
             = drop k (bs @ drop (off + length bs) m)"
    by (rule drop_append_exact)
  then show ?thesis using assms(2) by (simp only: take_drop_append_inside)
qed

lemma read_write_below:
  assumes "off + length bs \<le> length m" "k + n \<le> off"
  shows "take n (drop k (take off m @ bs @ drop (off + length bs) m)) = take n (drop k m)"
proof -
  have "k + n \<le> length (take off m)" using assms by simp
  then have "take n (drop k (take off m @ (bs @ drop (off + length bs) m)))
        = take n (drop k (take off m))"
    by (rule take_drop_append_inside)
  also have "\<dots> = take n (drop k m)" using assms(2) by (rule take_drop_take_below)
  finally show ?thesis .
qed

section \<open>Alignment of the bump cursor\<close>

lemma pad_arith:
  fixes n d K :: nat
  assumes "n + d = 8 * K"
  shows "n + d mod 8 = ((n + 7) div 8) * 8"
proof -
  define a b q where "a = n mod 8" and "b = d mod 8" and "q = n div 8"
  have a: "a < 8" and b: "b < 8" by (simp_all add: a_def b_def)
  have n: "n = a + q * 8" by (simp add: a_def q_def)
  have "(n + d) mod 8 = 0" using assms by simp
  then have "(a + b) mod 8 = 0" unfolding a_def b_def by (simp only: mod_add_eq)
  then obtain k where k: "a + b = 8 * k" by (auto simp: mod_eq_0_iff_dvd dvd_def)
  with a b have "k < 2" by simp
  then have ab: "a + b = 0 \<or> a + b = 8" using k by (cases k) auto
  have "(n + 7) div 8 = q + (a + 7) div 8"
    unfolding n by simp
  moreover have "(a + 7) div 8 = (if a = 0 then 0 else 1)"
  proof (cases "a = 0")
    case True then show ?thesis by simp
  next
    case False
    then have "(a + 7) div 8 = 1" using a by (intro div_nat_eqI) simp_all
    with False show ?thesis by simp
  qed
  ultimately have r: "((n + 7) div 8) * 8 = q * 8 + (if a = 0 then 0 else 8)"
    by simp
  have "n + b = q * 8 + (a + b)" unfolding n by simp
  also have "a + b = (if a = 0 then 0 else 8)" using ab b by auto
  finally show ?thesis using r unfolding b_def by simp
qed

lemma unat_and_7: "unat (w AND 7) = unat w mod 8" for w :: "64 word"
proof -
  have "(7 :: 64 word) = mask 3" by (simp add: mask_eq_exp_minus_1)
  then have "w AND 7 = take_bit 3 w"
    by (simp only: take_bit_eq_mask)
  then have "unat (w AND 7) = take_bit 3 (unat w)"
    by (simp only: unsigned_take_bit_eq)
  then show ?thesis by (simp add: take_bit_eq_mod)
qed

lemma pad_round8:
  assumes "n < 2 ^ 64"
  shows "n + unat (- (of_nat n :: 64 word) AND 7) = round8 n"
proof -
  have "(of_nat (2 ^ 64 - n) :: 64 word) + of_nat n = of_nat (2 ^ 64 - n + n)"
    by (simp only: of_nat_add)
  also have "2 ^ 64 - n + n = (2::nat) ^ 64" using assms by simp
  also have "(of_nat (2 ^ 64) :: 64 word) = 0" by simp
  finally have "- (of_nat n :: 64 word) = of_nat (2 ^ 64 - n)"
    by (simp only: eq_neg_iff_add_eq_0[symmetric])
  then have "unat (- (of_nat n :: 64 word)) = (2 ^ 64 - n) mod 2 ^ 64"
    by (simp only: unat_of_nat) simp
  then have "unat (- (of_nat n :: 64 word)) mod 8 = (2 ^ 64 - n) mod 8"
    by (simp add: mod_mod_cancel)
  moreover have "n + (2 ^ 64 - n) = 8 * 2 ^ 61" using assms by simp
  ultimately show ?thesis using pad_arith[of n "2 ^ 64 - n" "2 ^ 61"]
    by (simp only: round8_def unat_and_7)
qed

section \<open>allocValue\<close>

lemma rbind_Inr [simp]: "rbind (Inr x) f = f x"
  by (simp add: rbind_def)

lemma rbind_Inl [simp]: "rbind (Inl e) f = Inl e"
  by (simp add: rbind_def)

lemma length_record_bytes [simp]: "length (record_bytes s) = nbytes_of s"
  by (simp add: record_bytes_def nbytes_of_def sizeof_StringValue_def)

lemma write_bytes_two:
  assumes "off + length a + length b \<le> length m" "off' = off + length a"
  shows "rbind (write_bytes m off a) (\<lambda>m1. rbind (write_bytes m1 off' b) F)
         = rbind (write_bytes m off (a @ b)) F"
  using assms by (simp add: write_bytes_def drop_append ac_simps)

lemma alloc_chain:
  assumes "off + nbytes_of s \<le> length p"
  shows "rbind (write_bytes p (off + off_ptrvalue) (enc_le 8 0)) (\<lambda>p1.
         rbind (write_bytes p1 (off + off_length) (enc_le 8 (length s))) (\<lambda>p2.
         rbind (write_bytes p2 (off + off_lstring) s) (\<lambda>p3.
         rbind (write_bytes p3 (off + off_lstring + length s) [0]) F)))
         = F (put_record p off s)"
proof -
  have len: "off + 8 + 8 + length s + 1 \<le> length p"
    using assms by (simp add: nbytes_of_def sizeof_StringValue_def)
  have "rbind (write_bytes p (off + off_ptrvalue) (enc_le 8 0)) (\<lambda>p1.
         rbind (write_bytes p1 (off + off_length) (enc_le 8 (length s))) (\<lambda>p2.
         rbind (write_bytes p2 (off + off_lstring) s) (\<lambda>p3.
         rbind (write_bytes p3 (off + off_lstring + length s) [0]) F)))
       = rbind (write_bytes p off (enc_le 8 0 @ enc_le 8 (length s))) (\<lambda>p2.
         rbind (write_bytes p2 (off + 16) s) (\<lambda>p3.
         rbind (write_bytes p3 (off + 16 + length s) [0]) F))"
    unfolding off_ptrvalue_def off_length_def off_lstring_def
    using len by (subst write_bytes_two[symmetric, where off' = "off + 8"]) simp_all
  also have "\<dots> = rbind (write_bytes p off ((enc_le 8 0 @ enc_le 8 (length s)) @ s)) (\<lambda>p3.
         rbind (write_bytes p3 (off + 16 + length s) [0]) F)"
    using len by (intro write_bytes_two) simp_all
  also have "\<dots> = rbind (write_bytes p off (((enc_le 8 0 @ enc_le 8 (length s)) @ s) @ [0])) F"
    using len by (intro write_bytes_two) simp_all
  also have "\<dots> = F (put_record p off s)"
    using assms
    by (simp add: write_bytes_def put_record_def record_bytes_def nbytes_of_def
                  sizeof_StringValue_def)
  finally show ?thesis .
qed

lemma store_value_eq:
  assumes "npools t - 1 < length (pools t)"
    and "nfill t + nbytes_of s \<le> length (pools t ! (npools t - 1))"
    and "size_t_ok s"
  shows "store_value t s (nbytes_of s) =
     Inr (t\<lparr>pools := (pools t)[npools t - 1 := put_record (pools t ! (npools t - 1)) (nfill t) s],
            nfill := nfill t + round8 (nbytes_of s)\<rparr>,
          of_nat (push_bit POOL_BITS (npools t) OR nfill t))"
proof -
  have pad: "nbytes_of s + unat (- (of_nat (nbytes_of s) :: 64 word) AND 7) = round8 (nbytes_of s)"
    using assms(3) unfolding size_t_ok_def by (rule pad_round8)
  show ?thesis
    unfolding store_value_def Let_def
    using assms(1) by (simp only: if_True alloc_chain[OF assms(2)] pad)
qed

lemma allocValue_eq:
  assumes "pools_ok t" "size_t_ok s"
  shows "allocValue t s = Inr (alloc_state t s, alloc_handle t s)"
proof (cases "new_pool_needed t s")
  case True
  let ?t1 = "new_pool t (nbytes_of s)"
  have l: "length (pools t) = npools t" using assms(1) by (simp add: pools_ok_def)
  have p: "pools ?t1 ! (npools ?t1 - 1) = fresh_pool s"
    by (simp add: new_pool_def fresh_pool_def max_def l[symmetric])
  have 1: "npools ?t1 - 1 < length (pools ?t1)" using l by (simp add: new_pool_def)
  have nf: "nfill ?t1 = 0" by (simp add: new_pool_def)
  have 2: "nfill ?t1 + nbytes_of s \<le> length (pools ?t1 ! (npools ?t1 - 1))"
    unfolding p by (simp add: new_pool_def fresh_pool_def)
  have "allocValue t s = store_value ?t1 s (nbytes_of s)"
    using True by (simp add: allocValue_def new_pool_needed_def nbytes_of_def)
  also note store_value_eq[OF 1 2 assms(2)]
  finally have "allocValue t s =
      Inr (?t1\<lparr>pools := (pools ?t1)[npools ?t1 - 1 := put_record (fresh_pool s) 0 s],
               nfill := nfill ?t1 + round8 (nbytes_of s)\<rparr>,
           of_nat (push_bit POOL_BITS (npools ?t1) OR nfill ?t1))"
    unfolding p by (simp only: nf)
  moreover have "?t1\<lparr>pools := (pools ?t1)[npools ?t1 - 1 := X], nfill := nfill ?t1 + r\<rparr>
        = t\<lparr>pools := pools t @ [X], npools := npools t + 1, nfill := r\<rparr>" for X r
    by (simp add: new_pool_def l[symmetric])
  moreover have "npools ?t1 = npools t + 1" "nfill ?t1 = 0"
    by (simp_all add: new_pool_def)
  ultimately show ?thesis
    using True
    by (simp add: alloc_state_def alloc_handle_def alloc_pools_def alloc_npools_def
                  alloc_base_def)
next
  case False
  then have np: "npools t \<noteq> 0" and fit: "nfill t + nbytes_of s \<le> POOL_SIZE"
    by (auto simp: new_pool_needed_def)
  have l: "length (pools t) = npools t" using assms(1) by (simp add: pools_ok_def)
  have 1: "npools t - 1 < length (pools t)" using l np by simp
  then have "pools t ! (npools t - 1) \<in> set (pools t)" by (rule nth_mem)
  then have "POOL_SIZE \<le> length (pools t ! (npools t - 1))"
    using assms(1) by (simp add: pools_ok_def)
  then have 2: "nfill t + nbytes_of s \<le> length (pools t ! (npools t - 1))"
    using fit by simp
  have "allocValue t s = store_value t s (nbytes_of s)"
    using False by (simp add: allocValue_def new_pool_needed_def nbytes_of_def)
  also note store_value_eq[OF 1 2 assms(2)]
  finally show ?thesis
    using False
    by (simp add: alloc_state_def alloc_handle_def alloc_pools_def alloc_npools_def
                  alloc_base_def)
qed

lemma length_put_record:
  "off + nbytes_of s \<le> length p \<Longrightarrow> length (put_record p off s) = length p"
  by (simp add: put_record_def)

lemma put_record_below:
  assumes "off + nbytes_of s \<le> length p" "k + n \<le> off"
  shows "take n (drop k (put_record p off s)) = take n (drop k p)"
  unfolding put_record_def
  using read_write_below[of off "record_bytes s" p k n] assms by simp

lemma put_record_inside:
  assumes "off + nbytes_of s \<le> length p" "k + n \<le> nbytes_of s"
  shows "take n (drop (off + k) (put_record p off s)) = take n (drop k (record_bytes s))"
  unfolding put_record_def
  using read_write_inside[of off "record_bytes s" p k n] assms by simp

lemma record_bytes_length_field: "take 8 (drop 8 (record_bytes s)) = enc_le 8 (length s)"
  by (simp add: record_bytes_def)

lemma record_bytes_payload: "take 8 (record_bytes s) = enc_le 8 0"
  by (simp add: record_bytes_def)

lemma record_bytes_chars: "take (length s) (drop 16 (record_bytes s)) = s"
  by (simp add: record_bytes_def)

lemma record_bytes_chars_0: "take (length s + 1) (drop 16 (record_bytes s)) = s @ [0]"
  by (simp add: record_bytes_def)

text \<open>The pool \<^verbatim>\<open>allocValue\<close> writes to, after the write.\<close>

lemma alloc_npools_pos: "0 < alloc_npools t s"
  by (auto simp: alloc_npools_def new_pool_needed_def)

lemma length_alloc_pools:
  "pools_ok t \<Longrightarrow> length (alloc_pools t s) = alloc_npools t s"
  by (simp add: alloc_pools_def alloc_npools_def pools_ok_def)

lemma alloc_target_fits:
  assumes "pools_ok t" "\<not> new_pool_needed t s"
  shows "nfill t + nbytes_of s \<le> length (pools t ! (npools t - 1))"
proof -
  from assms(2) have np: "npools t \<noteq> 0" and fit: "nfill t + nbytes_of s \<le> POOL_SIZE"
    by (auto simp: new_pool_needed_def)
  have "npools t - 1 < length (pools t)" using assms(1) np by (simp add: pools_ok_def)
  then have "pools t ! (npools t - 1) \<in> set (pools t)" by (rule nth_mem)
  then have "POOL_SIZE \<le> length (pools t ! (npools t - 1))"
    using assms(1) by (simp add: pools_ok_def)
  then show ?thesis using fit by simp
qed

lemma alloc_pools_last:
  assumes "pools_ok t"
  shows "\<exists>p. alloc_base t s + nbytes_of s \<le> length p \<and> POOL_SIZE \<le> length p \<and>
             alloc_pools t s ! (alloc_npools t s - 1) = put_record p (alloc_base t s) s"
proof (cases "new_pool_needed t s")
  case True
  have "alloc_pools t s ! (alloc_npools t s - 1) = put_record (fresh_pool s) 0 s"
    using True assms by (simp add: alloc_pools_def alloc_npools_def pools_ok_def nth_append)
  moreover have "0 + nbytes_of s \<le> length (fresh_pool s)" "POOL_SIZE \<le> length (fresh_pool s)"
    by (simp_all add: fresh_pool_def)
  ultimately show ?thesis using True by (auto simp: alloc_base_def)
next
  case False
  then have np: "npools t \<noteq> 0" by (auto simp: new_pool_needed_def)
  have l: "npools t - 1 < length (pools t)" using assms np by (simp add: pools_ok_def)
  have "alloc_pools t s ! (alloc_npools t s - 1)
        = put_record (pools t ! (npools t - 1)) (nfill t) s"
    using False l by (simp add: alloc_pools_def alloc_npools_def)
  moreover have "POOL_SIZE \<le> length (pools t ! (npools t - 1))"
    using assms nth_mem[OF l] by (simp add: pools_ok_def)
  ultimately show ?thesis
    using False alloc_target_fits[OF assms False] by (auto simp: alloc_base_def)
qed

lemma pools_ok_alloc_state:
  assumes "pools_ok t"
  shows "pools_ok (alloc_state t s)"
proof -
  have len: "length (pools (alloc_state t s)) = npools (alloc_state t s)"
    using assms by (simp add: alloc_state_def length_alloc_pools)
  have "POOL_SIZE \<le> length p" if "p \<in> set (alloc_pools t s)" for p
  proof (cases "new_pool_needed t s")
    case True
    then have "p \<in> set (pools t) \<or> p = put_record (fresh_pool s) 0 s"
      using that by (auto simp: alloc_pools_def)
    moreover have "length (put_record (fresh_pool s) 0 s) = length (fresh_pool s)"
      by (rule length_put_record) (simp add: fresh_pool_def)
    ultimately show ?thesis using assms by (auto simp: pools_ok_def fresh_pool_def)
  next
    case False
    let ?q = "put_record (pools t ! (npools t - 1)) (nfill t) s"
    from that False have "p \<in> set ((pools t)[npools t - 1 := ?q])"
      by (simp add: alloc_pools_def)
    then have "p \<in> set (pools t) \<or> p = ?q"
      using set_update_subset_insert by fastforce
    moreover have "length ?q = length (pools t ! (npools t - 1))"
      using alloc_target_fits[OF assms False] by (rule length_put_record)
    moreover have "pools t ! (npools t - 1) \<in> set (pools t)"
      using False assms by (intro nth_mem) (auto simp: new_pool_needed_def pools_ok_def)
    ultimately show ?thesis using assms by (auto simp: pools_ok_def)
  qed
  then show ?thesis using len by (simp add: pools_ok_def alloc_state_def)
qed

lemma round8_ge: "n \<le> round8 n"
proof -
  define q r where "q = (n + 7) div 8" and "r = (n + 7) mod 8"
  have "q * 8 + r = n + 7" by (simp add: q_def r_def)
  moreover have "r < 8" by (simp add: r_def)
  ultimately have "n \<le> q * 8" by linarith
  then show ?thesis by (simp add: round8_def q_def)
qed

lemma rec_unchanged_if:
  assumes "take 8 (drop (snd sv + 8) (ps' ! fst sv)) = take 8 (drop (snd sv + 8) (ps ! fst sv))"
    and "take (rec_len ps sv) (drop (snd sv + 16) (ps' ! fst sv))
         = take (rec_len ps sv) (drop (snd sv + 16) (ps ! fst sv))"
  shows "rec_len ps' sv = rec_len ps sv" and "rec_key ps' sv = rec_key ps sv"
    and "rec_end ps' sv = rec_end ps sv"
proof -
  show l: "rec_len ps' sv = rec_len ps sv"
    using assms(1) by (simp add: rec_len_def off_length_def split_beta)
  show "rec_key ps' sv = rec_key ps sv"
    using assms(2) l by (simp add: rec_key_def off_lstring_def split_beta)
  show "rec_end ps' sv = rec_end ps sv"
    using l by (simp add: rec_end_def)
qed

lemma rec_preserved:
  assumes ok: "pools_ok t" and r: "rec_ok (pools t) (nfill t) sv"
  shows "rec_len (alloc_pools t s) sv = rec_len (pools t) sv"
    and "rec_key (alloc_pools t s) sv = rec_key (pools t) sv"
    and "rec_ok (alloc_pools t s) (alloc_base t s + round8 (nbytes_of s)) sv"
proof -
  let ?ps' = "alloc_pools t s"
  from r have idx: "fst sv < length (pools t)"
    and inpool: "rec_end (pools t) sv \<le> length (pools t ! fst sv)"
    and below: "fst sv + 1 = length (pools t) \<Longrightarrow> rec_end (pools t) sv \<le> nfill t"
    by (simp_all add: rec_ok_def)
  have "(?ps' ! fst sv = pools t ! fst sv \<and> fst sv + 1 \<noteq> length ?ps') \<or>
        (fst sv + 1 = length (pools t) \<and> \<not> new_pool_needed t s \<and>
         ?ps' ! fst sv = put_record (pools t ! fst sv) (nfill t) s)"
  proof (cases "new_pool_needed t s")
    case True
    then show ?thesis using idx by (simp add: alloc_pools_def nth_append)
  next
    case False
    show ?thesis
    proof (cases "fst sv = npools t - 1")
      case True
      then show ?thesis using False idx ok
        by (simp add: alloc_pools_def pools_ok_def)
    next
      case ne: False
      then show ?thesis using False idx ok
        by (auto simp: alloc_pools_def pools_ok_def)
    qed
  qed
  then consider
      (same) "?ps' ! fst sv = pools t ! fst sv" "fst sv + 1 \<noteq> length ?ps'"
    | (last) "fst sv + 1 = length (pools t)" "\<not> new_pool_needed t s"
             "?ps' ! fst sv = put_record (pools t ! fst sv) (nfill t) s"
    by blast
  then have main: "rec_len ?ps' sv = rec_len (pools t) sv \<and> rec_key ?ps' sv = rec_key (pools t) sv
      \<and> rec_end ?ps' sv = rec_end (pools t) sv
      \<and> length (?ps' ! fst sv) = length (pools t ! fst sv)
      \<and> (fst sv + 1 = length ?ps' \<longrightarrow> rec_end (pools t) sv \<le> nfill t \<and> \<not> new_pool_needed t s)"
  proof cases
    case same
    then show ?thesis
      using rec_unchanged_if[of sv ?ps' "pools t"] by simp
  next
    case last
    have lastidx: "fst sv = npools t - 1" using last(1) ok by (simp add: pools_ok_def)
    have fits: "nfill t + nbytes_of s \<le> length (pools t ! fst sv)"
      using alloc_target_fits[OF ok last(2)] lastidx by simp
    have e: "rec_end (pools t) sv \<le> nfill t" using below last(1) by simp
    have 1: "take 8 (drop (snd sv + 8) (?ps' ! fst sv))
             = take 8 (drop (snd sv + 8) (pools t ! fst sv))"
      unfolding last(3) using fits e
      by (intro put_record_below) (simp_all add: rec_end_def sizeof_StringValue_def)
    have 2: "take (rec_len (pools t) sv) (drop (snd sv + 16) (?ps' ! fst sv))
             = take (rec_len (pools t) sv) (drop (snd sv + 16) (pools t ! fst sv))"
      unfolding last(3) using fits e
      by (intro put_record_below) (simp_all add: rec_end_def sizeof_StringValue_def)
    have "length (?ps' ! fst sv) = length (pools t ! fst sv)"
      unfolding last(3) using fits by (rule length_put_record)
    then show ?thesis
      using rec_unchanged_if[OF 1 2] e last(2) by simp
  qed
  show "rec_len ?ps' sv = rec_len (pools t) sv" using main by simp
  show "rec_key ?ps' sv = rec_key (pools t) sv" using main by simp
  have "length (pools t) \<le> length ?ps'"
    using ok by (simp add: length_alloc_pools alloc_npools_def pools_ok_def)
  then have "fst sv < length ?ps'" using idx by simp
  moreover have "rec_end ?ps' sv \<le> length (?ps' ! fst sv)" using main inpool by simp
  moreover have "rec_end ?ps' sv \<le> alloc_base t s + round8 (nbytes_of s)"
    if "fst sv + 1 = length ?ps'"
    using main that by (simp add: alloc_base_def)
  ultimately show "rec_ok ?ps' (alloc_base t s + round8 (nbytes_of s)) sv"
    by (simp add: rec_ok_def)
qed

lemma rec_new:
  assumes ok: "pools_ok t" and sz: "size_t_ok s"
  defines "sv \<equiv> (alloc_npools t s - 1, alloc_base t s)"
  shows "rec_len (alloc_pools t s) sv = length s"
    and "rec_key (alloc_pools t s) sv = s"
    and "rec_ok (alloc_pools t s) (alloc_base t s + round8 (nbytes_of s)) sv"
proof -
  let ?ps' = "alloc_pools t s"
  let ?b = "alloc_base t s"
  obtain p where fits: "?b + nbytes_of s \<le> length p"
    and p: "?ps' ! (alloc_npools t s - 1) = put_record p ?b s"
    using alloc_pools_last[OF ok] by blast
  have p': "?ps' ! (alloc_npools t s - Suc 0) = put_record p ?b s" using p by simp
  have ls: "length s < 2 ^ 64" using sz by (simp add: size_t_ok_def nbytes_of_def)
  have "take 8 (drop (?b + 8) (put_record p ?b s)) = take 8 (drop 8 (record_bytes s))"
    using fits by (intro put_record_inside) (simp_all add: nbytes_of_def sizeof_StringValue_def)
  then show l: "rec_len ?ps' sv = length s"
    using ls by (simp add: rec_len_def sv_def p' off_length_def record_bytes_length_field
                           dec_enc_le_8)
  have "take (length s) (drop (?b + 16) (put_record p ?b s))
        = take (length s) (drop 16 (record_bytes s))"
    using fits by (intro put_record_inside) (simp_all add: nbytes_of_def sizeof_StringValue_def)
  then show "rec_key ?ps' sv = s"
    using l by (simp add: rec_key_def sv_def p' off_lstring_def record_bytes_chars)
  have e: "rec_end ?ps' sv = ?b + nbytes_of s"
    using l by (simp add: rec_end_def nbytes_of_def sv_def)
  have "length (?ps' ! fst sv) = length p"
    unfolding sv_def fst_conv p using fits by (rule length_put_record)
  moreover have "fst sv < length ?ps'"
    using alloc_npools_pos[of t s] by (simp add: sv_def length_alloc_pools[OF ok])
  ultimately show "rec_ok ?ps' (?b + round8 (nbytes_of s)) sv"
    using e fits round8_ge[of "nbytes_of s"] by (simp add: rec_ok_def)
qed

lemma pack_nat:
  assumes "b < 2 ^ 12"
  shows "push_bit 12 np OR b = np * 4096 + (b::nat)"
proof -
  have "\<not> bit b n" if "12 \<le> n" for n
  proof -
    have "b < 2 ^ n" using assms that
      by (meson less_le_trans one_le_numeral power_increasing)
    then show ?thesis by (simp add: bit_iff_odd)
  qed
  then have "push_bit 12 np + b = push_bit 12 np OR b"
    by (intro disjunctive_add) (auto simp: bit_push_bit_iff)
  then show ?thesis by (simp add: push_bit_eq_mult)
qed

lemma handle_decode:
  fixes np b :: nat
  assumes np: "0 < np" "np < 2 ^ 20" and b: "b < 2 ^ 12"
  defines "v \<equiv> (of_nat (push_bit POOL_BITS np OR b) :: u32)"
  shows "v \<noteq> 0" and "handle_ptr v = (np - 1, b)"
proof -
  define x where "x = np * 4096 + b"
  have v: "v = of_nat x" using pack_nat[OF b] by (simp add: v_def x_def POOL_BITS_def)
  have "x < 2 ^ 20 * 4096" 
  proof -
    have "np * 4096 + b < np * 4096 + 4096" using b by simp
    also have "\<dots> = (np + 1) * 4096" by simp
    also have "\<dots> \<le> 2 ^ 20 * 4096" using np(2) by (intro mult_le_mono1) simp
    finally show ?thesis by (simp add: x_def)
  qed
  then have xlt: "x < 2 ^ 32" by simp
  have ux: "unat v = x" unfolding v using xlt by (simp add: unat_of_nat)
  have xpos: "0 < x" using np(1) by (simp add: x_def)
  show "v \<noteq> 0" using ux xpos by (auto simp: unat_eq_0[symmetric] simp del: unat_eq_0)
  have "take_bit 32 x = x" using xlt by (simp add: take_bit_nat_eq_self_iff)
  then have "unat (drop_bit 12 v) = drop_bit 12 (unat v)"
    by (simp add: unsigned_drop_bit_eq ux)
  also have "\<dots> = x div 4096" by (simp add: ux drop_bit_eq_div)
  also have "\<dots> = np" using b by (simp add: x_def)
  finally have d: "unat (drop_bit 12 v) = np" .
  then have "drop_bit 12 v \<noteq> 0" using np(1) by auto
  then have 1: "unat (drop_bit 12 v - 1) = np - 1" using d by (simp add: unat_minus_one)
  have "(4095 :: u32) = mask 12" by (simp add: mask_eq_exp_minus_1)
  then have "v AND 4095 = take_bit 12 v" by (simp only: take_bit_eq_mask)
  then have "unat (v AND 4095) = take_bit 12 (unat v)" by (simp only: unsigned_take_bit_eq)
  also have "\<dots> = x mod 4096" by (simp add: ux take_bit_eq_mod)
  also have "\<dots> = b" using b by (simp add: x_def)
  finally have 2: "unat (v AND 4095) = b" .
  show "handle_ptr v = (np - 1, b)"
    using 1 2 by (simp add: handle_ptr_def POOL_BITS_def POOL_SIZE_def)
qed

lemma getValue_decode: "getValue t 0 = Inr None"
  "v \<noteq> 0 \<Longrightarrow> fst (handle_ptr v) < length (pools t) \<Longrightarrow> getValue t v = Inr (Some (handle_ptr v))"
  "v \<noteq> 0 \<Longrightarrow> \<not> fst (handle_ptr v) < length (pools t) \<Longrightarrow> getValue t v = Inl Fault"
  by (simp_all add: getValue_def handle_ptr_def Let_def)

lemma alloc_base_less: "alloc_base t s < 2 ^ 12"
  by (auto simp: alloc_base_def new_pool_needed_def POOL_SIZE_def POOL_BITS_def nbytes_of_def)

lemma alloc_handle_ptr:
  assumes "handle_room t"
  shows "alloc_handle t s \<noteq> 0"
    and "handle_ptr (alloc_handle t s) = (alloc_npools t s - 1, alloc_base t s)"
proof -
  have "alloc_npools t s < 2 ^ 20"
    using assms by (auto simp: alloc_npools_def handle_room_def POOL_BITS_def)
  then show "alloc_handle t s \<noteq> 0"
    and "handle_ptr (alloc_handle t s) = (alloc_npools t s - 1, alloc_base t s)"
    unfolding alloc_handle_def
    using handle_decode[OF alloc_npools_pos _ alloc_base_less, of t s t s] by simp_all
qed

section \<open>Probing a well-formed table\<close>

lemma length_rec_key:
  assumes "rec_ok ps fill sv"
  shows "length (rec_key ps sv) = rec_len ps sv"
  using assms
  by (auto simp: rec_ok_def rec_key_def rec_end_def off_lstring_def sizeof_StringValue_def
                 split_beta)

lemma sv_length_ok:
  assumes "rec_ok (pools t) fill sv"
  shows "sv_length t sv = Inr (rec_len (pools t) sv)"
  using assms
  by (auto simp: rec_ok_def sv_length_def sv_read_def read_bytes_def rec_len_def rec_end_def
                 off_length_def sizeof_StringValue_def split_beta)

lemma sv_lstring_ok:
  assumes "rec_ok (pools t) fill sv" "n \<le> rec_len (pools t) sv + 1"
  shows "sv_lstring t sv n = Inr (take n (drop (snd sv + 16) (pools t ! fst sv)))"
  using assms
  by (auto simp: rec_ok_def sv_lstring_def sv_read_def read_bytes_def rec_end_def
                 off_lstring_def sizeof_StringValue_def split_beta)

lemma sv_lstring_key:
  assumes "rec_ok (pools t) fill sv"
  shows "sv_lstring t sv (rec_len (pools t) sv) = Inr (rec_key (pools t) sv)"
  using sv_lstring_ok[OF assms, of "rec_len (pools t) sv"]
  by (simp add: rec_key_def off_lstring_def split_beta)

lemma slots_nth:
  "i < length (table t) \<Longrightarrow> slots t ! i = slot_of (pools t) (table t ! i)"
  by (simp add: slots_def)

lemma length_slots [simp]: "length (slots t) = length (table t)"
  by (simp add: slots_def)

lemma slot_hit_eq:
  assumes i: "i < length (table t)" and ok: "entries_ok t"
  shows "slot_hit t h s i = Inr (stops_at (slots t) (h, s) i)"
proof (cases "vptr (table t ! i) = 0")
  case True
  then show ?thesis using i
    by (simp add: slot_hit_def stops_at_def slots_nth slot_of_def)
next
  case False
  let ?e = "table t ! i"
  let ?sv = "handle_ptr (vptr ?e)"
  have r: "rec_ok (pools t) (nfill t) ?sv"
    using ok i False nth_mem[OF i] by (simp add: entries_ok_def)
  then have g: "getValue t (vptr ?e) = Inr (Some ?sv)"
    using False by (simp add: getValue_decode rec_ok_def)
  have sl: "slots t ! i = Some (hash ?e, rec_key (pools t) ?sv)"
    using i False by (simp add: slots_nth slot_of_def)
  show ?thesis
  proof (cases "hash ?e = h \<and> rec_len (pools t) ?sv = length s")
    case True
    then have "slot_hit t h s i = Inr (rec_key (pools t) ?sv = s)"
      using i False g sv_length_ok[OF r] sv_lstring_key[OF r]
      by (simp add: slot_hit_def Let_def)
    then show ?thesis using True by (auto simp: stops_at_def sl)
  next
    case ne: False
    then have "slot_hit t h s i = Inr False"
      using i False g sv_length_ok[OF r]
      by (auto simp: slot_hit_def Let_def)
    moreover have "rec_key (pools t) ?sv \<noteq> s \<or> hash ?e \<noteq> h"
      using ne length_rec_key[OF r] by auto
    ultimately show ?thesis by (auto simp: stops_at_def sl)
  qed
qed

lemma snd_probe_state: "snd (probe_state dim h k) = k + 1"
  by (induction k) (auto simp: split_beta)

lemma probe_Suc:
  "probe dim h (Suc k) = (probe dim h k + Suc k) AND (dim - 1)"
  using snd_probe_state[of dim h k] by (simp add: probe_def split_beta)

lemma probe_0: "probe dim h 0 = h AND (dim - 1)"
  by (simp add: probe_def)

lemma table_ok_probe_less:
  "table_ok t \<Longrightarrow> probe (tabledim t) h k < length (table t)"
  by (auto simp: table_ok_def probe_less)

lemma findSlot_loop_hit:
  "slot_hit t h s i = Inr True \<Longrightarrow> findSlot_loop t h s i j = ret i"
  by (subst findSlot_loop.simps) (simp add: ret_def)

lemma findSlot_loop_miss:
  "slot_hit t h s i = Inr False \<Longrightarrow>
   findSlot_loop t h s i j = findSlot_loop t h s ((i + j) AND (tabledim t - 1)) (j + 1)"
  by (subst findSlot_loop.simps) simp

lemma findSlot_loop_fault:
  "slot_hit t h s i = Inl e \<Longrightarrow> findSlot_loop t h s i j = Some (Inl e)"
  by (subst findSlot_loop.simps) simp

lemma findSlot_loop_steps:
  assumes tab: "table_ok t" and ok: "entries_ok t"
    and fs: "first_stop (slots t) (unat h) (h, s) n" and kn: "k \<le> n"
  shows "findSlot_loop t h s (probe (tabledim t) (unat h) k) (Suc k)
         = ret (probe (tabledim t) (unat h) n)"
  using kn
proof (induction "n - k" arbitrary: k)
  case 0
  then have "k = n" by simp
  have len: "length (table t) = tabledim t" using tab by (simp add: table_ok_def)
  have "stops_at (slots t) (h, s) (probe (tabledim t) (unat h) n)"
    using fs by (simp add: first_stop_def len)
  then have "slot_hit t h s (probe (tabledim t) (unat h) n) = Inr True"
    using slot_hit_eq[OF table_ok_probe_less[OF tab] ok] by simp
  then show ?case unfolding \<open>k = n\<close> by (rule findSlot_loop_hit)
next
  case (Suc d)
  then have lt: "k < n" and d: "d = n - Suc k" and le: "Suc k \<le> n" by simp_all
  have len: "length (table t) = tabledim t" using tab by (simp add: table_ok_def)
  have "\<not> stops_at (slots t) (h, s) (probe (tabledim t) (unat h) k)"
    using fs lt by (simp add: first_stop_def len)
  then have "slot_hit t h s (probe (tabledim t) (unat h) k) = Inr False"
    using slot_hit_eq[OF table_ok_probe_less[OF tab] ok] by simp
  then have "findSlot_loop t h s (probe (tabledim t) (unat h) k) (Suc k)
        = findSlot_loop t h s (probe (tabledim t) (unat h) (Suc k)) (Suc (Suc k))"
    by (simp add: findSlot_loop_miss probe_Suc)
  also have "\<dots> = ret (probe (tabledim t) (unat h) n)"
    using Suc.hyps(1)[OF d le] .
  finally show ?case .
qed

lemma findSlot_first:
  assumes "table_ok t" "entries_ok t" "first_stop (slots t) (unat h) (h, s) n"
  shows "findSlot t h s = ret (probe (tabledim t) (unat h) n)"
  using findSlot_loop_steps[OF assms, of 0] by (simp add: findSlot_def probe_0)

lemma first_stop_unique:
  assumes "first_stop A h k n" "first_stop A h k n'"
  shows "n = n'"
proof (rule ccontr)
  assume "n \<noteq> n'"
  then consider "n < n'" | "n' < n" by linarith
  then show False using assms by cases (auto simp: first_stop_def)
qed

lemma first_stop_exists:
  assumes len: "length A = 2 ^ m" and i0: "i0 < length A" and e: "A ! i0 = None"
  shows "\<exists>n<length A. first_stop A h k n"
proof -
  have "i0 \<in> probe (2 ^ m) h ` {..<2 ^ m}"
    using probe_bij[of m h] i0 len by (simp add: bij_betw_def)
  then obtain n0 where n0: "n0 < 2 ^ m" "probe (2 ^ m) h n0 = i0" by auto
  define P where "P n = stops_at A k (probe (length A) h n)" for n
  have "P n0" using n0 e by (simp add: P_def stops_at_def len)
  define n where "n = (LEAST n. P n)"
  have "P n" unfolding n_def using \<open>P n0\<close> by (rule LeastI)
  moreover have "\<not> P n'" if "n' < n" for n'
    using that not_less_Least unfolding n_def by blast
  moreover have "n \<le> n0" unfolding n_def using \<open>P n0\<close> by (rule Least_le)
  ultimately have "n < length A \<and> first_stop A h k n"
    using n0(1) len by (simp add: first_stop_def P_def)
  then show ?thesis by blast
qed

lemma filter_less_empty:
  assumes "length (filter P xs) < length xs"
  shows "\<exists>i<length xs. \<not> P (xs ! i)"
proof (rule ccontr)
  assume "\<not> ?thesis"
  then have "\<forall>x\<in>set xs. P x" by (auto simp: in_set_conv_nth)
  then have "filter P xs = xs" by simp
  with assms show False by simp
qed

lemma empty_slot_exists:
  assumes "occupied t < length (table t)"
  shows "\<exists>i<length (slots t). slots t ! i = None"
proof -
  obtain i where "i < length (table t)" "\<not> vptr (table t ! i) \<noteq> 0"
    using filter_less_empty[of "\<lambda>e. vptr e \<noteq> 0" "table t"] assms
    unfolding occupied_def by blast
  then show ?thesis by (auto simp: slots_nth slot_of_def)
qed

lemma findSlot_total:
  assumes tab: "table_ok t" and ok: "entries_ok t" and occ: "occupied t < tabledim t"
  shows "\<exists>n<tabledim t. first_stop (slots t) (unat h) (h, s) n \<and>
             findSlot t h s = ret (probe (tabledim t) (unat h) n)"
proof -
  from tab obtain m where m: "tabledim t = 2 ^ m" and len: "length (table t) = tabledim t"
    by (auto simp: table_ok_def)
  obtain i0 where "i0 < length (slots t)" "slots t ! i0 = None"
    using empty_slot_exists[of t] occ len by auto
  then obtain n where "n < length (slots t)" "first_stop (slots t) (unat h) (h, s) n"
    using first_stop_exists[of "slots t" m i0 "unat h" "(h, s)"] m len by auto
  then show ?thesis using findSlot_first[OF tab ok] len by auto
qed

section \<open>Placing a key in an empty slot\<close>

lemma first_stop_update_other:
  assumes fs: "first_stop A h k n" and e: "A ! i = None"
    and ne: "probe (length A) h n \<noteq> i"
  shows "first_stop (A[i := x]) h k n"
proof -
  have "i \<noteq> probe (length A) h n'" if "n' < n" for n'
    using fs that e by (auto simp: first_stop_def stops_at_def)
  then have "i \<noteq> probe (length A) h n'" if "n' \<le> n" for n'
    using that ne by (cases "n' = n") auto
  then have same: "A[i := x] ! probe (length A) h n' = A ! probe (length A) h n'"
    if "n' \<le> n" for n'
    using that by (intro nth_list_update_neq) blast
  have 1: "stops_at (A[i := x]) k (probe (length A) h n)"
    using fs same[of n] by (simp add: first_stop_def stops_at_def)
  have 2: "\<not> stops_at (A[i := x]) k (probe (length A) h n')" if "n' < n" for n'
    using fs same[of n'] that by (simp add: first_stop_def stops_at_def)
  show ?thesis using 1 2 by (simp add: first_stop_def)
qed

lemma first_stop_update_self:
  assumes fs: "first_stop A h k n" and e: "A ! i = None"
    and i: "probe (length A) h n = i" "i < length A"
  shows "first_stop (A[i := Some k]) h k n"
proof -
  have "i \<noteq> probe (length A) h n'" if "n' < n" for n'
    using fs that e by (auto simp: first_stop_def stops_at_def)
  then have same: "A[i := Some k] ! probe (length A) h n' = A ! probe (length A) h n'"
    if "n' < n" for n'
    using that by (intro nth_list_update_neq) blast
  have 1: "stops_at (A[i := Some k]) k (probe (length A) h n)"
    using i by (simp add: stops_at_def)
  have 2: "\<not> stops_at (A[i := Some k]) k (probe (length A) h n')" if "n' < n" for n'
    using fs same[of n'] that by (simp add: first_stop_def stops_at_def)
  show ?thesis using 1 2 by (simp add: first_stop_def)
qed

lemma placed_keysD:
  assumes "placed_keys A" "i < length A" "A ! i = Some k"
  obtains n where "first_stop A (unat (fst k)) k n" "probe (length A) (unat (fst k)) n = i"
  using assms unfolding placed_keys_def by blast

lemma placed_keys_update:
  assumes pk: "placed_keys A" and fs: "first_stop A (unat (fst k)) k n"
    and i: "probe (length A) (unat (fst k)) n = i" "i < length A" and e: "A ! i = None"
  shows "placed_keys (A[i := Some k])"
  unfolding placed_keys_def
proof (intro allI impI)
  fix j k' assume j: "j < length (A[i := Some k])" and s: "A[i := Some k] ! j = Some k'"
  show "\<exists>n. first_stop (A[i := Some k]) (unat (fst k')) k' n \<and>
            probe (length (A[i := Some k])) (unat (fst k')) n = j"
  proof (cases "j = i")
    case True
    then have "k' = k" using s i by simp
    then show ?thesis using first_stop_update_self[OF fs e i] i True by auto
  next
    case False
    then have Aj: "A ! j = Some k'" using s by simp
    have j': "j < length A" using j by simp
    obtain n2 where n2: "first_stop A (unat (fst k')) k' n2"
        "probe (length A) (unat (fst k')) n2 = j"
      using placed_keysD[OF pk j' Aj] by blast
    have "probe (length A) (unat (fst k')) n2 \<noteq> i" using n2(2) False by simp
    then have "first_stop (A[i := Some k]) (unat (fst k')) k' n2"
      by (rule first_stop_update_other[OF n2(1) e])
    then show ?thesis using n2(2) by auto
  qed
qed

lemma ret_inject [simp]: "(ret x = ret y) = (x = y)"
  by (simp add: ret_def)

lemma placed_iff:
  assumes tab: "table_ok t" and ok: "entries_ok t"
  shows "placed_keys (slots t) \<Longrightarrow> placed t"
    and "occupied t < tabledim t \<Longrightarrow> placed t \<Longrightarrow> placed_keys (slots t)"
proof -
  have len: "length (table t) = tabledim t" using tab by (simp add: table_ok_def)
  {
    assume pk: "placed_keys (slots t)"
    show "placed t" unfolding placed_def
    proof (intro allI impI)
      fix i assume i: "i < length (table t)" and v: "vptr (table t ! i) \<noteq> 0"
      let ?e = "table t ! i"
      have "slots t ! i = Some (hash ?e, entry_key t ?e)"
        using i v by (simp add: slots_nth slot_of_def entry_key_def)
      then obtain n where "first_stop (slots t) (unat (hash ?e)) (hash ?e, entry_key t ?e) n"
          "probe (length (slots t)) (unat (hash ?e)) n = i"
        using placed_keysD[OF pk, of i "(hash ?e, entry_key t ?e)"] i by auto
      then show "findSlot t (hash ?e) (entry_key t ?e) = ret i"
        using findSlot_first[OF tab ok] len by simp
    qed
  }
  {
    assume occ: "occupied t < tabledim t" and pl: "placed t"
    show "placed_keys (slots t)" unfolding placed_keys_def
    proof (intro allI impI)
      fix i k assume i: "i < length (slots t)" and s: "slots t ! i = Some k"
      let ?e = "table t ! i"
      have v: "vptr ?e \<noteq> 0" and k: "k = (hash ?e, entry_key t ?e)"
        using i s by (auto simp: slots_nth slot_of_def entry_key_def split: if_splits)
      obtain n where n: "first_stop (slots t) (unat (hash ?e)) (hash ?e, entry_key t ?e) n"
          "findSlot t (hash ?e) (entry_key t ?e) = ret (probe (tabledim t) (unat (hash ?e)) n)"
        using findSlot_total[OF tab ok occ] by blast
      moreover have "findSlot t (hash ?e) (entry_key t ?e) = ret i"
        using pl i v by (simp add: placed_def)
      ultimately show "\<exists>n. first_stop (slots t) (unat (fst k)) k n \<and>
            probe (length (slots t)) (unat (fst k)) n = i"
        using len by (auto simp: k)
    qed
  }
qed

section \<open>Filling a slot\<close>

lemma filled_fields [simp]:
  "table (filled t i h s) = (table t)[i := \<lparr>hash = h, vptr = alloc_handle t s\<rparr>]"
  "pools (filled t i h s) = alloc_pools t s"
  "npools (filled t i h s) = alloc_npools t s"
  "nfill (filled t i h s) = alloc_base t s + round8 (nbytes_of s)"
  "tabledim (filled t i h s) = tabledim t"
  "count (filled t i h s) = count t"
  by (simp_all add: filled_def alloc_state_def)

lemma slot_of_preserved:
  assumes "pools_ok t" "entries_ok t" "e \<in> set (table t)"
  shows "slot_of (alloc_pools t s) e = slot_of (pools t) e"
proof (cases "vptr e = 0")
  case True then show ?thesis by (simp add: slot_of_def)
next
  case False
  then have "rec_ok (pools t) (nfill t) (handle_ptr (vptr e))"
    using assms by (simp add: entries_ok_def)
  then show ?thesis using rec_preserved(2)[OF assms(1)] by (simp add: slot_of_def)
qed

lemma slots_filled:
  assumes ok: "pools_ok t" "entries_ok t" "handle_room t" "size_t_ok s"
  shows "slots (filled t i h s) = (slots t)[i := Some (h, s)]"
proof -
  have m: "map (slot_of (alloc_pools t s)) (table t) = map (slot_of (pools t)) (table t)"
    using slot_of_preserved[OF ok(1,2)] by (intro map_cong) simp_all
  have n: "slot_of (alloc_pools t s) \<lparr>hash = h, vptr = alloc_handle t s\<rparr> = Some (h, s)"
    using alloc_handle_ptr[OF ok(3), of s] rec_new(2)[OF ok(1,4)]
    by (simp add: slot_of_def)
  show ?thesis by (simp add: slots_def map_update m n)
qed

lemma entries_ok_filled:
  assumes ok: "pools_ok t" "entries_ok t" "handle_room t" "size_t_ok s"
  shows "entries_ok (filled t i h s)"
  unfolding entries_ok_def
proof (intro ballI impI)
  fix e assume e: "e \<in> set (table (filled t i h s))" and v: "vptr e \<noteq> 0"
  from e have "e \<in> set (table t) \<or> e = \<lparr>hash = h, vptr = alloc_handle t s\<rparr>"
    using set_update_subset_insert[of "table t" i] by auto
  then show "rec_ok (pools (filled t i h s)) (nfill (filled t i h s)) (handle_ptr (vptr e))"
  proof
    assume "e \<in> set (table t)"
    then have "rec_ok (pools t) (nfill t) (handle_ptr (vptr e))"
      using ok(2) v by (simp add: entries_ok_def)
    then show ?thesis using rec_preserved(3)[OF ok(1)] by simp
  next
    assume "e = \<lparr>hash = h, vptr = alloc_handle t s\<rparr>"
    then show ?thesis
      using alloc_handle_ptr(2)[OF ok(3), of s] rec_new(3)[OF ok(1,4)] by simp
  qed
qed

lemma occupied_update:
  assumes "i < length (table t)" "vptr (table t ! i) = 0" "vptr e \<noteq> 0"
  shows "length (filter (\<lambda>e. vptr e \<noteq> 0) ((table t)[i := e])) = occupied t + 1"
proof -
  let ?P = "\<lambda>e. vptr e \<noteq> (0::u32)"
  have split: "table t = take i (table t) @ table t ! i # drop (Suc i) (table t)"
    using assms(1) by (simp add: id_take_nth_drop[symmetric])
  have upd: "(table t)[i := e] = take i (table t) @ e # drop (Suc i) (table t)"
    using assms(1) by (simp add: upd_conv_take_nth_drop)
  have "occupied t = length (filter ?P (take i (table t)))
                     + length (filter ?P (drop (Suc i) (table t)))"
    unfolding occupied_def by (subst split) (simp add: assms(2))
  then show ?thesis unfolding upd using assms(3) by simp
qed

lemma filled_ok:
  assumes tab: "table_ok t" and pok: "pools_ok t" and eok: "entries_ok t"
    and pl: "placed t" and occ: "occupied t < tabledim t"
    and room: "handle_room t" and sz: "size_t_ok s"
    and fs: "first_stop (slots t) (unat h) (h, s) n"
    and i: "probe (tabledim t) (unat h) n = i" and e: "vptr (table t ! i) = 0"
  shows "table_ok (filled t i h s)" "pools_ok (filled t i h s)" "entries_ok (filled t i h s)"
    "placed (filled t i h s)" "occupied (filled t i h s) = occupied t + 1"
    "findSlot (filled t i h s) h s = ret i"
proof -
  let ?t' = "filled t i h s"
  have len: "length (table t) = tabledim t" using tab by (simp add: table_ok_def)
  have il: "i < length (table t)" using table_ok_probe_less[OF tab] i by auto
  show tab': "table_ok ?t'" using tab by (simp add: table_ok_def)
  have "pools_ok (alloc_state t s)" using pok by (rule pools_ok_alloc_state)
  then show "pools_ok ?t'" by (simp add: pools_ok_def alloc_state_def)
  show eok': "entries_ok ?t'" using pok eok room sz by (rule entries_ok_filled)
  have sl: "slots ?t' = (slots t)[i := Some (h, s)]" using pok eok room sz by (rule slots_filled)
  have none: "slots t ! i = None" using il e by (simp add: slots_nth slot_of_def)
  have pk: "placed_keys (slots t)" using placed_iff(2)[OF tab eok occ pl] .
  have fs': "first_stop (slots t) (unat (fst (h, s))) (h, s) n" using fs by simp
  have i': "probe (length (slots t)) (unat (fst (h, s))) n = i" using i len by simp
  have "placed_keys ((slots t)[i := Some (h, s)])"
    using placed_keys_update[OF pk fs' i' _ none] il by simp
  then show "placed ?t'" using placed_iff(1)[OF tab' eok'] sl by simp
  show "occupied ?t' = occupied t + 1"
    using occupied_update[OF il e, of "\<lparr>hash = h, vptr = alloc_handle t s\<rparr>"]
      alloc_handle_ptr(1)[OF room, of s]
    by (simp add: occupied_def)
  have "first_stop (slots ?t') (unat h) (h, s) n"
    unfolding sl using first_stop_update_self[OF fs none] i il len by simp
  then show "findSlot ?t' h s = ret i"
    using findSlot_first[OF tab' eok'] i by simp
qed

section \<open>grow\<close>

lemma live_update:
  assumes "i < length tab" "vptr (tab ! i) = 0" "vptr e \<noteq> 0"
  shows "live (tab[i := e]) = insert e (live tab)"
proof -
  have 1: "set (tab[i := e]) = insert e (set (take i tab) \<union> set (drop (Suc i) tab))"
    using assms(1) by (simp add: upd_conv_take_nth_drop)
  have "tab = take i tab @ tab ! i # drop (Suc i) tab"
    using assms(1) by (simp add: id_take_nth_drop[symmetric])
  then have "set tab = set (take i tab @ tab ! i # drop (Suc i) tab)" by simp
  then have 2: "set tab = insert (tab ! i) (set (take i tab) \<union> set (drop (Suc i) tab))"
    by simp
  show ?thesis unfolding live_def 1 using 2 assms(2,3) by auto
qed

lemma live_take_Suc:
  assumes "i < length tab"
  shows "live (take (Suc i) tab)
         = (if vptr (tab ! i) = 0 then live (take i tab) else insert (tab ! i) (live (take i tab)))"
  using assms by (auto simp: take_Suc_conv_app_nth live_def)

lemma live_nth:
  assumes "e \<in> live tab"
  obtains i where "i < length tab" "tab ! i = e" "vptr e \<noteq> 0"
  using assms by (auto simp: live_def in_set_conv_nth)

lemma live_replicate_empty [simp]: "live (replicate n empty_entry) = {}"
  by (auto simp: live_def empty_entry_def)

lemma placed_keys_distinct:
  assumes "placed_keys A" "i < length A" "j < length A" "A ! i = Some k" "A ! j = Some k"
  shows "i = j"
proof -
  obtain n1 where 1: "first_stop A (unat (fst k)) k n1" "probe (length A) (unat (fst k)) n1 = i"
    using placed_keysD[OF assms(1,2,4)] by blast
  obtain n2 where 2: "first_stop A (unat (fst k)) k n2" "probe (length A) (unat (fst k)) n2 = j"
    using placed_keysD[OF assms(1,3,5)] by blast
  have "n1 = n2" using first_stop_unique[OF 1(1) 2(1)] .
  then show ?thesis using 1(2) 2(2) by simp
qed

lemma entries_ok_live:
  "entries_ok t = (\<forall>e\<in>live (table t). rec_ok (pools t) (nfill t) (handle_ptr (vptr e)))"
  by (auto simp: entries_ok_def live_def)

lemma rehashed_fields:
  assumes "rehashed t0 i tn"
  shows "pools tn = pools t0" "npools tn = npools t0" "nfill tn = nfill t0"
    "count tn = count t0" "tabledim tn = tabledim t0 * 2"
  using assms by (simp_all add: rehashed_def)

lemma rehashedD:
  assumes "rehashed t0 i tn"
  shows "length (table tn) = tabledim t0 * 2" "placed_keys (slots tn)"
    "live (table tn) = live (take i (table t0))"
    "occupied tn = length (filter (\<lambda>e. vptr e \<noteq> 0) (take i (table t0)))"
  using assms by (simp_all add: rehashed_def)

lemma rehashed_occupied_le:
  assumes "rehashed t0 i tn"
  shows "occupied tn \<le> i"
proof -
  have "length (filter (\<lambda>e. vptr e \<noteq> 0) (take i (table t0))) \<le> length (take i (table t0))"
    by (rule length_filter_le)
  then show ?thesis using rehashedD(4)[OF assms] by simp
qed

lemma rehashed_ok:
  assumes r: "rehashed t0 i tn" and i: "i \<le> length (table t0)"
    and tab: "table_ok t0" and eok: "entries_ok t0"
  shows "table_ok tn" "entries_ok tn" "occupied tn < tabledim tn"
proof -
  obtain m where m: "tabledim t0 = 2 ^ m" and len: "length (table t0) = tabledim t0"
    using tab by (auto simp: table_ok_def)
  have "tabledim tn = 2 ^ Suc m" using rehashed_fields(5)[OF r] m by simp
  moreover have l: "length (table tn) = tabledim t0 * 2" using rehashedD(1)[OF r] .
  ultimately show "table_ok tn" unfolding table_ok_def using rehashed_fields(5)[OF r] by metis
  have "live (table tn) \<subseteq> live (table t0)"
    using rehashedD(3)[OF r] by (auto simp: live_def dest: in_set_takeD)
  then show "entries_ok tn"
    using eok unfolding entries_ok_live rehashed_fields[OF r] by blast
  have "occupied tn \<le> i" using r by (rule rehashed_occupied_le)
  moreover have "0 < tabledim t0" using m by simp
  ultimately show "occupied tn < tabledim tn"
    using i len rehashed_fields(5)[OF r] by simp
qed

lemma obind_ret [simp]: "obind (ret x) f = f x"
  by (simp add: obind_def ret_def)

lemma obind_Some_Inr [simp]: "obind (Some (Inr x)) f = f x"
  by (simp add: obind_def)

lemma slots_cong:
  "pools t' = pools t \<Longrightarrow> table t' = table t \<Longrightarrow> slots t' = slots t"
  by (simp add: slots_def)

lemma grow_step:
  assumes tab: "table_ok t0" and eok: "entries_ok t0" and pk: "placed_keys (slots t0)"
    and r: "rehashed t0 i tn" and i: "i < length (table t0)"
    and v: "vptr (table t0 ! i) \<noteq> 0"
  defines "se \<equiv> table t0 ! i"
  shows "\<exists>slot. findSlot tn (hash se) (entry_key t0 se) = ret slot \<and>
           slot < length (table tn) \<and>
           rehashed t0 (Suc i) (tn\<lparr>table := (table tn)[slot := se]\<rparr>)"
proof -
  let ?h = "hash se" and ?key = "entry_key t0 se"
  have ps: "pools tn = pools t0" using rehashed_fields(1)[OF r] .
  have ok: "table_ok tn" "entries_ok tn" "occupied tn < tabledim tn"
    using rehashed_ok[OF r _ tab eok] i by simp_all
  obtain n where n: "first_stop (slots tn) (unat ?h) (?h, ?key) n"
      "findSlot tn ?h ?key = ret (probe (tabledim tn) (unat ?h) n)"
    using findSlot_total[OF ok] by blast
  define slot where "slot = probe (tabledim tn) (unat ?h) n"
  have sl: "slot < length (table tn)" unfolding slot_def using ok(1) by (rule table_ok_probe_less)
  have lenn: "length (table tn) = tabledim tn" using ok(1) by (simp add: table_ok_def)
  have stop: "stops_at (slots tn) (?h, ?key) slot"
    using n(1) by (simp add: first_stop_def slot_def lenn)
  have si: "slots t0 ! i = Some (?h, ?key)"
    using i v by (simp add: slots_nth slot_of_def se_def entry_key_def)
  have none: "slots tn ! slot = None"
  proof (rule ccontr)
    assume "slots tn ! slot \<noteq> None"
    then have s: "slots tn ! slot = Some (?h, ?key)" using stop by (auto simp: stops_at_def)
    then have "vptr (table tn ! slot) \<noteq> 0"
      using sl by (auto simp: slots_nth slot_of_def split: if_splits)
    then have "table tn ! slot \<in> live (table tn)"
      using sl by (simp add: live_def)
    then have "table tn ! slot \<in> live (take i (table t0))"
      using rehashedD(3)[OF r] by simp
    then obtain i' where i': "i' < length (take i (table t0))" "take i (table t0) ! i' = table tn ! slot"
      by (rule live_nth)
    then have lt: "i' < i" and e': "table t0 ! i' = table tn ! slot" by simp_all
    have "slots t0 ! i' = Some (?h, ?key)"
      using s sl lt i e' by (simp add: slots_nth ps)
    then have "i' = i"
      using placed_keys_distinct[OF pk _ _ _ si, of i'] lt i by simp
    with lt show False by simp
  qed
  then have empty: "vptr (table tn ! slot) = 0"
    using sl by (auto simp: slots_nth slot_of_def split: if_splits)
  let ?tn' = "tn\<lparr>table := (table tn)[slot := se]\<rparr>"
  have 1: "pools ?tn' = pools t0" "npools ?tn' = npools t0" "nfill ?tn' = nfill t0"
    "count ?tn' = count t0" "tabledim ?tn' = tabledim t0 * 2"
    using rehashed_fields[OF r] by simp_all
  have 2: "length (table ?tn') = tabledim t0 * 2" using rehashedD(1)[OF r] by simp
  have "slot_of (pools t0) se = Some (?h, ?key)"
    using v by (simp add: slot_of_def se_def entry_key_def)
  then have sl': "slots ?tn' = (slots tn)[slot := Some (?h, ?key)]"
    by (simp add: slots_def map_update ps)
  have pkn: "placed_keys (slots tn)" using rehashedD(2)[OF r] .
  have "placed_keys ((slots tn)[slot := Some (?h, ?key)])"
    using placed_keys_update[OF pkn, of "(?h, ?key)" n slot] n(1) none sl
    by (simp add: slot_def lenn)
  then have 3: "placed_keys (slots ?tn')" using sl' by simp
  have "live (table ?tn') = insert se (live (table tn))"
    using live_update[OF sl empty, of se] v by (simp add: se_def)
  also have "\<dots> = live (take (Suc i) (table t0))"
    using rehashedD(3)[OF r] live_take_Suc[OF i] v by (simp add: se_def)
  finally have 4: "live (table ?tn') = live (take (Suc i) (table t0))" .
  have "occupied ?tn' = occupied tn + 1"
    using occupied_update[OF sl empty, of se] v by (simp add: occupied_def se_def)
  then have 5: "occupied ?tn' = length (filter (\<lambda>e. vptr e \<noteq> 0) (take (Suc i) (table t0)))"
    using rehashedD(4)[OF r] v i by (simp add: take_Suc_conv_app_nth se_def)
  have 6: "rehashed t0 (Suc i) ?tn'"
    unfolding rehashed_def by (intro conjI 1 2 3 4 5)
  have 7: "findSlot tn ?h ?key = ret slot" using n(2) by (simp add: slot_def)
  show ?thesis by (intro exI[of _ slot] conjI 6 7 sl)
qed

lemma rehashed_skip:
  assumes "rehashed t0 i tn" "i < length (table t0)" "vptr (table t0 ! i) = 0"
  shows "rehashed t0 (Suc i) tn"
  using assms live_take_Suc[of i "table t0"]
  by (simp add: rehashed_def take_Suc_conv_app_nth)

lemma grow_loop_rehash:
  assumes tab: "table_ok t0" and eok: "entries_ok t0" and pk: "placed_keys (slots t0)"
    and r: "rehashed t0 i tn" and n: "i + n = length (table t0)"
  shows "\<exists>t'. grow_loop tn (table t0) i n = ret t' \<and> rehashed t0 (length (table t0)) t'"
  using r n
proof (induction n arbitrary: i tn)
  case 0
  then show ?case by simp
next
  case (Suc n)
  then have i: "i < length (table t0)" and n': "Suc i + n = length (table t0)" by simp_all
  let ?se = "table t0 ! i"
  show ?case
  proof (cases "vptr ?se = 0")
    case True
    have "rehashed t0 (Suc i) tn" using Suc.prems(1) i True by (rule rehashed_skip)
    from Suc.IH[OF this n'] show ?thesis using i True by (simp add: entry_at_def)
  next
    case False
    let ?sv = "handle_ptr (vptr ?se)"
    have ps: "pools tn = pools t0" using rehashed_fields(1)[OF Suc.prems(1)] .
    have rk: "rec_ok (pools tn) (nfill t0) ?sv"
      using eok i False nth_mem[OF i] by (simp add: entries_ok_def ps)
    then have g: "getValue tn (vptr ?se) = Inr (Some ?sv)"
      using False by (simp add: getValue_decode rec_ok_def)
    have len: "sv_length tn ?sv = Inr (rec_len (pools t0) ?sv)"
      using sv_length_ok[OF rk] by (simp add: ps)
    have key: "sv_lstring tn ?sv (rec_len (pools t0) ?sv) = Inr (entry_key t0 ?se)"
      using sv_lstring_key[OF rk] by (simp add: ps entry_key_def)
    obtain slot where slot: "findSlot tn (hash ?se) (entry_key t0 ?se) = ret slot"
        "slot < length (table tn)"
        "rehashed t0 (Suc i) (tn\<lparr>table := (table tn)[slot := ?se]\<rparr>)"
      using grow_step[OF tab eok pk Suc.prems(1) i False] by blast
    from Suc.IH[OF slot(3) n'] show ?thesis
      using i False g len key slot(1,2) by (simp add: entry_at_def set_entry_def)
  qed
qed


lemma slots_replicate_empty:
  assumes "table t = replicate n empty_entry"
  shows "placed_keys (slots t)" "occupied t = 0"
  using assms by (simp_all add: placed_keys_def slots_def slot_of_def empty_entry_def occupied_def)

lemma grow_rehashed:
  assumes tab: "table_ok t" and eok: "entries_ok t" and pl: "placed t"
    and occ: "occupied t < tabledim t"
  shows "\<exists>t'. grow t = ret t' \<and> rehashed t (length (table t)) t'"
proof -
  let ?t1 = "t\<lparr>tabledim := tabledim t * 2, table := replicate (tabledim t * 2) empty_entry\<rparr>"
  have pk: "placed_keys (slots t)" using placed_iff(2)[OF tab eok occ pl] .
  have len: "length (table t) = tabledim t" using tab by (simp add: table_ok_def)
  have "rehashed t 0 ?t1"
    using slots_replicate_empty[of ?t1 "tabledim t * 2"]
    by (simp add: rehashed_def live_def empty_entry_def)
  then show ?thesis
    using grow_loop_rehash[OF tab eok pk, of 0 ?t1 "tabledim t"] len
    by (simp add: grow_def Let_def)
qed

section \<open>Adding an entry\<close>

lemma alloc_table_irrelevant:
  "alloc_pools (t\<lparr>table := tb\<rparr>) s = alloc_pools t s"
  "alloc_npools (t\<lparr>table := tb\<rparr>) s = alloc_npools t s"
  "alloc_base (t\<lparr>table := tb\<rparr>) s = alloc_base t s"
  "alloc_handle (t\<lparr>table := tb\<rparr>) s = alloc_handle t s"
  by (simp_all add: alloc_pools_def alloc_npools_def alloc_base_def alloc_handle_def
                    new_pool_needed_def)

lemma entry_update_all: "(e::StringEntry)\<lparr>hash := h, vptr := v\<rparr> = \<lparr>hash = h, vptr = v\<rparr>"
  by (cases e) simp

lemma fill_slot_eq:
  assumes pok: "pools_ok t" and sz: "size_t_ok s" and room: "handle_room t"
    and i: "i < length (table t)"
  shows "fill_slot t h s i = ret (filled t i h s, Some (alloc_ptr t s))"
proof -
  let ?t4 = "t\<lparr>table := (table t)[i := (table t ! i)\<lparr>hash := h\<rparr>]\<rparr>"
  let ?v = "alloc_handle t s"
  have 1: "set_entry t i ((table t ! i)\<lparr>hash := h\<rparr>) = ret ?t4"
    using i by (simp add: set_entry_def)
  have "pools_ok ?t4" using pok by (simp add: pools_ok_def)
  then have 2: "allocValue ?t4 s = Inr (alloc_state ?t4 s, ?v)"
    using allocValue_eq[OF _ sz, of ?t4] by (simp add: alloc_table_irrelevant)
  let ?t5 = "alloc_state ?t4 s"
  have t5: "table ?t5 = (table t)[i := (table t ! i)\<lparr>hash := h\<rparr>]"
    by (simp add: alloc_state_def)
  have 3: "set_entry ?t5 i ((table ?t5 ! i)\<lparr>vptr := ?v\<rparr>) = ret (filled t i h s)"
    using i unfolding set_entry_def t5
    by (simp add: filled_def alloc_state_def alloc_table_irrelevant entry_update_all)
  have 4: "entry_at ((table t)[i := \<lparr>hash = h, vptr = ?v\<rparr>]) i = ret \<lparr>hash = h, vptr = ?v\<rparr>"
    using i by (simp add: entry_at_def)
  have "fst (handle_ptr ?v) < length (pools (filled t i h s))"
    using alloc_handle_ptr(2)[OF room, of s] alloc_npools_pos[of t s]
    by (simp add: length_alloc_pools[OF pok])
  then have 5: "getValue (filled t i h s) ?v = Inr (Some (alloc_ptr t s))"
    using alloc_handle_ptr[OF room, of s] by (simp add: getValue_decode alloc_ptr_def)
  show ?thesis
    unfolding fill_slot_def by (simp add: 1 2 3 4 5)
qed

lemma invD:
  assumes "inv t"
  shows "table_ok t" "pools_ok t" "entries_ok t" "placed t" "occupied t < tabledim t"
  using assms by (simp_all add: inv_def)

lemma inv_placed_keys: "inv t \<Longrightarrow> placed_keys (slots t)"
  using placed_iff(2)[of t] by (simp add: inv_def)

lemma inv_from_keys:
  assumes "table_ok t" "pools_ok t" "entries_ok t" "placed_keys (slots t)"
    "occupied t < tabledim t"
  shows "inv t"
  using assms placed_iff(1)[of t] by (simp add: inv_def)

lemma inv_count:
  assumes "inv t"
  shows "inv (t\<lparr>count := c\<rparr>)"
proof (rule inv_from_keys)
  show "table_ok (t\<lparr>count := c\<rparr>)" using invD(1)[OF assms] by (simp add: table_ok_def)
  show "pools_ok (t\<lparr>count := c\<rparr>)" using invD(2)[OF assms] by (simp add: pools_ok_def)
  show "entries_ok (t\<lparr>count := c\<rparr>)" using invD(3)[OF assms] by (simp add: entries_ok_def)
  show "placed_keys (slots (t\<lparr>count := c\<rparr>))"
    using inv_placed_keys[OF assms] by (simp add: slots_def)
  show "occupied (t\<lparr>count := c\<rparr>) < tabledim (t\<lparr>count := c\<rparr>)"
    using invD(5)[OF assms] by (simp add: occupied_def)
qed

lemma inv_length: "inv t \<Longrightarrow> length (table t) = tabledim t"
  by (simp add: inv_def table_ok_def)

lemma grown_inv:
  assumes i: "inv t" and r: "rehashed t (length (table t)) t'"
  shows "inv t'" "occupied t' = occupied t" "live (table t') = live (table t)"
proof -
  have ok: "table_ok t'" "entries_ok t'" "occupied t' < tabledim t'"
    using rehashed_ok[OF r _ invD(1,3)[OF i]] by simp_all
  have "pools_ok t'"
    using invD(2)[OF i] rehashed_fields[OF r] by (simp add: pools_ok_def)
  then show "inv t'"
    using ok rehashedD(2)[OF r] by (intro inv_from_keys)
  show "occupied t' = occupied t" using rehashedD(4)[OF r] by (simp add: occupied_def)
  show "live (table t') = live (table t)" using rehashedD(3)[OF r] by simp
qed

lemma inv_findSlot:
  assumes "inv t"
  obtains n where "first_stop (slots t) (unat h) (h, s) n"
    "findSlot t h s = ret (probe (tabledim t) (unat h) n)"
    "probe (tabledim t) (unat h) n < length (table t)"
  using findSlot_total[OF invD(1,3,5)[OF assms], of h s]
        table_ok_probe_less[OF invD(1)[OF assms]] by blast

lemma inv_slot_found:
  assumes i: "inv t" and j: "j < length (table t)" and s: "slots t ! j = Some (h, s)"
  shows "findSlot t h s = ret j"
proof -
  obtain n where "first_stop (slots t) (unat (fst (h, s))) (h, s) n"
      "probe (length (slots t)) (unat (fst (h, s))) n = j"
    using placed_keysD[OF inv_placed_keys[OF i] _ s] j by auto
  then show ?thesis
    using findSlot_first[OF invD(1,3)[OF i], of h s n] inv_length[OF i] by simp
qed

lemma live_slot:
  assumes "e \<in> live (table t)"
  obtains j where "j < length (table t)" "table t ! j = e"
    "slots t ! j = Some (hash e, entry_key t e)"
proof -
  obtain j where "j < length (table t)" "table t ! j = e" "vptr e \<noteq> 0"
    using assms by (rule live_nth)
  then show ?thesis using that by (simp add: slots_nth slot_of_def entry_key_def)
qed

lemma found_after_rehash:
  assumes i: "inv t" and r: "rehashed t (length (table t)) t'"
    and j: "j < length (table t)" and s: "slots t ! j = Some (h, s)"
  shows "\<exists>j'<length (table t'). table t' ! j' = table t ! j \<and> findSlot t' h s = ret j'"
proof -
  let ?e = "table t ! j"
  have e: "vptr ?e \<noteq> 0" "hash ?e = h" "entry_key t ?e = s"
    using j s by (auto simp: slots_nth slot_of_def entry_key_def split: if_splits)
  then have "?e \<in> live (table t')"
    using j grown_inv(3)[OF i r] by (simp add: live_def)
  then obtain j' where j': "j' < length (table t')" "table t' ! j' = ?e"
      "slots t' ! j' = Some (hash ?e, entry_key t' ?e)"
    by (rule live_slot)
  have "entry_key t' ?e = entry_key t ?e"
    using rehashed_fields(1)[OF r] by (simp add: entry_key_def)
  then have "findSlot t' h s = ret j'"
    using inv_slot_found[OF grown_inv(1)[OF i r] j'(1)] j'(3) e by simp
  then show ?thesis using j'(1,2) by blast
qed

lemma absent_after_rehash:
  assumes i: "inv t" and r: "rehashed t (length (table t)) t'"
    and f: "findSlot t h s = ret j" and v: "vptr (table t ! j) = 0"
  obtains n where "first_stop (slots t') (unat h) (h, s) n"
    "findSlot t' h s = ret (probe (tabledim t') (unat h) n)"
    "vptr (table t' ! probe (tabledim t') (unat h) n) = 0"
proof -
  have i': "inv t'" using grown_inv(1)[OF i r] .
  obtain n where n: "first_stop (slots t') (unat h) (h, s) n"
    "findSlot t' h s = ret (probe (tabledim t') (unat h) n)"
    "probe (tabledim t') (unat h) n < length (table t')"
    using inv_findSlot[OF i'] by blast
  define j2 where "j2 = probe (tabledim t') (unat h) n"
  have stop: "stops_at (slots t') (h, s) j2"
    using n(1) inv_length[OF i'] by (simp add: first_stop_def j2_def)
  have j2l: "j2 < length (table t')" using n(3) by (simp add: j2_def)
  have "vptr (table t' ! j2) = 0"
  proof (rule ccontr)
    assume nz: "vptr (table t' ! j2) \<noteq> 0"
    let ?e = "table t' ! j2"
    have "slots t' ! j2 \<noteq> None"
      using nz j2l by (simp add: slots_nth slot_of_def)
    then have "slots t' ! j2 = Some (h, s)"
      using stop by (auto simp: stops_at_def)
    then have e: "hash ?e = h" "entry_key t' ?e = s"
      using j2l nz by (simp_all add: slots_nth slot_of_def entry_key_def)
    have "?e \<in> live (table t')"
      using nz j2l by (simp add: live_def)
    then have "?e \<in> live (table t)"
      using grown_inv(3)[OF i r] by simp
    then obtain k where k: "k < length (table t)" "table t ! k = ?e"
        "slots t ! k = Some (hash ?e, entry_key t ?e)"
      by (rule live_slot)
    have "entry_key t ?e = entry_key t' ?e"
      using rehashed_fields(1)[OF r] by (simp add: entry_key_def)
    then have "findSlot t h s = ret k"
      using inv_slot_found[OF i k(1)] k(3) e by simp
    then have "k = j" using f by simp
    then show False using k(2) v nz by simp
  qed
  then show ?thesis using that n(1,2) by (simp add: j2_def)
qed

lemma rec_new_bytes:
  assumes ok: "pools_ok t" and sz: "size_t_ok s"
  shows "take (length s + 1) (drop (alloc_base t s + 16) (alloc_pools t s ! (alloc_npools t s - 1)))
         = s @ [0]"
    and "take 8 (drop (alloc_base t s) (alloc_pools t s ! (alloc_npools t s - 1))) = enc_le 8 0"
proof -
  let ?b = "alloc_base t s"
  obtain p where fits: "?b + nbytes_of s \<le> length p"
    and p: "alloc_pools t s ! (alloc_npools t s - 1) = put_record p ?b s"
    using alloc_pools_last[OF ok] by blast
  have "take (length s + 1) (drop (?b + 16) (put_record p ?b s))
        = take (length s + 1) (drop 16 (record_bytes s))"
    using fits by (intro put_record_inside) (simp_all add: nbytes_of_def sizeof_StringValue_def)
  then show "take (length s + 1) (drop (?b + 16) (alloc_pools t s ! (alloc_npools t s - 1)))
         = s @ [0]"
    unfolding p by (simp only: record_bytes_chars_0)
  have "take 8 (drop (?b + 0) (put_record p ?b s)) = take 8 (drop 0 (record_bytes s))"
    using fits by (intro put_record_inside) (simp_all add: nbytes_of_def sizeof_StringValue_def)
  then show "take 8 (drop ?b (alloc_pools t s ! (alloc_npools t s - 1))) = enc_le 8 0"
    unfolding p by (simp add: record_bytes_payload)
qed

lemma no_grow_room:
  assumes "\<not> over_loadFactor (c + 1) d"
  shows "c + 1 < d"
  using assms by (simp add: over_loadFactor_def)

lemma grow_load:
  assumes "\<not> over_loadFactor c d" "0 < d"
  shows "\<not> over_loadFactor (c + 1) (d * 2)"
proof -
  have le: "5 * c \<le> 4 * d" using assms(1) by (simp add: over_loadFactor_def)
  have "5 * (c + 1) \<le> 4 * (d * 2)"
  proof (cases "d = 1")
    case True
    then have "c = 0" using le by (cases c) simp_all
    then show ?thesis using True by simp
  next
    case False
    then have "2 \<le> d" using assms(2) by linarith
    then show ?thesis using le by simp
  qed
  then show ?thesis by (simp add: over_loadFactor_def)
qed

lemma wfD:
  assumes "wf t"
  shows "inv t" "count t = occupied t" "\<not> over_loadFactor (count t) (tabledim t)"
  using assms by (auto simp: wf_def)

lemma alloc_cong:
  assumes "pools t' = pools t" "npools t' = npools t" "nfill t' = nfill t"
  shows "alloc_pools t' s = alloc_pools t s" "alloc_npools t' s = alloc_npools t s"
    "alloc_base t' s = alloc_base t s" "alloc_handle t' s = alloc_handle t s"
    "alloc_ptr t' s = alloc_ptr t s" "handle_room t' = handle_room t"
  using assms
  by (simp_all add: alloc_pools_def alloc_npools_def alloc_base_def alloc_handle_def
                    alloc_ptr_def new_pool_needed_def handle_room_def)

text \<open>The table in which \<^verbatim>\<open>update\<close> and \<^verbatim>\<open>insert\<close> fill the slot: the old one with the
  count advanced, or that table grown.\<close>

lemma add_entry_main:
  assumes w: "wf t" and room: "handle_room t" and sz: "size_t_ok s"
    and f: "findSlot t h s = ret i" and v: "vptr (table t ! i) = 0"
  obtains t3 n3 where
    "add_entry t h s (i::nat) =
       ret (filled t3 (probe (tabledim t3) (unat h) n3) h s, Some (alloc_ptr t s))"
    "inv t3" "count t3 = count t + 1" "occupied t3 = occupied t"
    "pools t3 = pools t" "npools t3 = npools t" "nfill t3 = nfill t"
    "tabledim t3 = (if over_loadFactor (count t + 1) (tabledim t)
                    then tabledim t * 2 else tabledim t)"
    "first_stop (slots t3) (unat h) (h, s) n3"
    "vptr (table t3 ! probe (tabledim t3) (unat h) n3) = 0"
    "live (table t3) = live (table t)"
    "occupied t3 + 1 < tabledim t3"
    "\<not> over_loadFactor (count t3) (tabledim t3)"
proof -
  let ?t1 = "t\<lparr>count := count t + 1\<rparr>"
  have i1: "inv ?t1" using wfD(1)[OF w] by (rule inv_count)
  have it: "inv t" using wfD(1)[OF w] .
  have sl1: "slots ?t1 = slots t" by (simp add: slots_def)
  obtain n where n: "first_stop (slots t) (unat h) (h, s) n"
      "findSlot t h s = ret (probe (tabledim t) (unat h) n)"
      "probe (tabledim t) (unat h) n < length (table t)"
    using inv_findSlot[OF it] by blast
  have i_eq: "i = probe (tabledim t) (unat h) n" using f n(2) by simp
  have f1: "findSlot ?t1 h s = ret i"
    using findSlot_first[OF invD(1,3)[OF i1], of h s n] n(1) sl1 i_eq by simp
  have dpos: "0 < tabledim t" using it by (auto simp: inv_def table_ok_def)
  show ?thesis
  proof (cases "over_loadFactor (count t + 1) (tabledim t)")
    case False
    have pk: "pools_ok ?t1" using invD(2)[OF i1] .
    have room1: "handle_room ?t1" using room by (simp add: handle_room_def)
    have il: "i < length (table ?t1)" using n(3) i_eq by simp
    have "add_entry t h s i = fill_slot ?t1 h s i"
      using False by (simp add: add_entry_def Let_def)
    also have "\<dots> = ret (filled ?t1 i h s, Some (alloc_ptr ?t1 s))"
      using fill_slot_eq[OF pk sz room1 il] .
    finally have 1: "add_entry t h s i =
        ret (filled ?t1 (probe (tabledim ?t1) (unat h) n) h s, Some (alloc_ptr t s))"
      using alloc_cong(5)[of ?t1 t s] by (simp add: i_eq)
    have 2: "occupied ?t1 + 1 < tabledim ?t1"
      using no_grow_room[OF False] wfD(2)[OF w] by (simp add: occupied_def)
    show ?thesis
      using that[of ?t1 n] 1 i1 n(1) sl1 v i_eq False 2 by (simp add: occupied_def)
  next
    case True
    obtain t2 where t2: "grow ?t1 = ret t2" "rehashed ?t1 (length (table ?t1)) t2"
      using grow_rehashed[OF invD(1,3,4,5)[OF i1]] by blast
    have i2: "inv t2" using grown_inv(1)[OF i1 t2(2)] .
    have v1: "vptr (table ?t1 ! i) = 0" using v by simp
    obtain n2 where n2: "first_stop (slots t2) (unat h) (h, s) n2"
        "findSlot t2 h s = ret (probe (tabledim t2) (unat h) n2)"
        "vptr (table t2 ! probe (tabledim t2) (unat h) n2) = 0"
      using absent_after_rehash[OF i1 t2(2) f1 v1] by blast
    let ?i2 = "probe (tabledim t2) (unat h) n2"
    have fl: "pools t2 = pools t" "npools t2 = npools t" "nfill t2 = nfill t"
      "count t2 = count t + 1" "tabledim t2 = tabledim t * 2"
      using rehashed_fields[OF t2(2)] by simp_all
    have pk: "pools_ok t2" using invD(2)[OF i2] .
    have room2: "handle_room t2" using room alloc_cong(6)[OF fl(1,2,3)] by simp
    have il: "?i2 < length (table t2)" using table_ok_probe_less[OF invD(1)[OF i2]] .
    have "add_entry t h s i = fill_slot t2 h s ?i2"
      using True t2(1) n2(2) by (simp add: add_entry_def Let_def)
    also have "\<dots> = ret (filled t2 ?i2 h s, Some (alloc_ptr t2 s))"
      using fill_slot_eq[OF pk sz room2 il] .
    finally have 1: "add_entry t h s i = ret (filled t2 ?i2 h s, Some (alloc_ptr t s))"
      using alloc_cong(5)[OF fl(1,2,3)] by simp
    have occ: "occupied t2 = occupied t"
      using grown_inv(2)[OF i1 t2(2)] by (simp add: occupied_def)
    have lv: "live (table t2) = live (table t)" using grown_inv(3)[OF i1 t2(2)] by simp
    have 2: "occupied t2 + 1 < tabledim t2"
      using occ fl(5) invD(5)[OF it] by simp
    have 3: "\<not> over_loadFactor (count t2) (tabledim t2)"
      using grow_load[OF wfD(3)[OF w] dpos] fl by simp
    show ?thesis
      using that[of t2 n2] 1 i2 fl occ n2(1,3) lv True 2 3 by simp
  qed
qed

lemma filled_wf:
  assumes i3: "inv t3" and room: "handle_room t3" and sz: "size_t_ok s"
    and fs: "first_stop (slots t3) (unat h) (h, s) n3"
    and e: "vptr (table t3 ! probe (tabledim t3) (unat h) n3) = 0"
    and c: "count t3 = occupied t3 + 1"
    and occ: "occupied t3 + 1 < tabledim t3"
    and ld: "\<not> over_loadFactor (count t3) (tabledim t3)"
  defines "j \<equiv> probe (tabledim t3) (unat h) n3"
  defines "t' \<equiv> filled t3 j h s"
  shows "wf t'" "findSlot t' h s = ret j" "j < length (table t')"
    "table t' ! j = \<lparr>hash = h, vptr = alloc_handle t3 s\<rparr>"
    "live (table t') = insert \<lparr>hash = h, vptr = alloc_handle t3 s\<rparr> (live (table t3))"
proof -
  have f: "table_ok t'" "pools_ok t'" "entries_ok t'" "placed t'"
    "occupied t' = occupied t3 + 1" "findSlot t' h s = ret j"
    unfolding t'_def j_def
    using filled_ok[OF invD[OF i3] room sz fs refl e] by simp_all
  have "inv t'" using f occ by (simp add: inv_def t'_def)
  moreover have "count t' = occupied t'" using f(5) c by (simp add: t'_def)
  moreover have "\<not> over_loadFactor (count t') (tabledim t')" using ld by (simp add: t'_def)
  ultimately show "wf t'" by (simp add: wf_def)
  show "findSlot t' h s = ret j" using f(6) .
  have jl: "j < length (table t3)"
    unfolding j_def using table_ok_probe_less[OF invD(1)[OF i3]] .
  then show "j < length (table t')" by (simp add: t'_def)
  show "table t' ! j = \<lparr>hash = h, vptr = alloc_handle t3 s\<rparr>"
    using jl by (simp add: t'_def)
  show "live (table t') = insert \<lparr>hash = h, vptr = alloc_handle t3 s\<rparr> (live (table t3))"
    using live_update[OF jl, of "\<lparr>hash = h, vptr = alloc_handle t3 s\<rparr>"] e
          alloc_handle_ptr(1)[OF room, of s]
    by (simp add: t'_def j_def)
qed

lemma new_record_reads:
  assumes pok: "pools_ok t" and sz: "size_t_ok s"
    and p: "pools t' = alloc_pools t s"
  shows "sv_length t' (alloc_ptr t s) = Inr (length s)"
    "sv_lstring t' (alloc_ptr t s) (length s) = Inr s"
    "sv_lstring t' (alloc_ptr t s) (length s + 1) = Inr (s @ [0])"
    "sv_ptrvalue t' (alloc_ptr t s) = Inr 0"
proof -
  let ?sv = "alloc_ptr t s"
  let ?fill = "alloc_base t s + round8 (nbytes_of s)"
  have r: "rec_ok (pools t') ?fill ?sv" and l: "rec_len (pools t') ?sv = length s"
    and k: "rec_key (pools t') ?sv = s"
    using rec_new[OF pok sz] by (simp_all add: p alloc_ptr_def)
  show "sv_length t' ?sv = Inr (length s)" using sv_length_ok[OF r] l by simp
  show "sv_lstring t' ?sv (length s) = Inr s" using sv_lstring_key[OF r] l k by simp
  show "sv_lstring t' ?sv (length s + 1) = Inr (s @ [0])"
    using sv_lstring_ok[OF r, of "length s + 1"] l rec_new_bytes(1)[OF pok sz]
    by (simp add: p alloc_ptr_def)
  have "sv_read t' ?sv off_ptrvalue 8 = Inr (enc_le 8 0)"
    using r rec_new_bytes(2)[OF pok sz]
    by (simp add: sv_read_def read_bytes_def rec_ok_def rec_end_def off_ptrvalue_def
                  sizeof_StringValue_def p alloc_ptr_def)
  then show "sv_ptrvalue t' ?sv = Inr 0"
    using dec_enc_le_8[of 0] by (simp add: sv_ptrvalue_def)
qed

lemma new_record_getValue:
  assumes pok: "pools_ok t" and room: "handle_room t"
    and p: "pools t' = alloc_pools t s"
  shows "getValue t' (alloc_handle t s) = Inr (Some (alloc_ptr t s))"
proof -
  have "fst (handle_ptr (alloc_handle t s)) < length (pools t')"
    using alloc_handle_ptr(2)[OF room, of s] alloc_npools_pos[of t s]
    by (simp add: p length_alloc_pools[OF pok])
  then show ?thesis
    using alloc_handle_ptr[OF room, of s] by (simp add: getValue_decode alloc_ptr_def)
qed

lemma add_entry_wf:
  assumes w: "wf t" and room: "handle_room t" and sz: "size_t_ok s"
    and f: "findSlot t h s = ret i" and v: "vptr (table t ! i) = 0"
  obtains t' j where
    "add_entry t h s i = ret (t', Some (alloc_ptr t s))" "wf t'"
    "findSlot t' h s = ret j" "j < length (table t')"
    "table t' ! j = \<lparr>hash = h, vptr = alloc_handle t s\<rparr>"
    "pools t' = alloc_pools t s" "npools t' = alloc_npools t s"
    "nfill t' = alloc_base t s + round8 (nbytes_of s)"
    "count t' = count t + 1"
    "tabledim t' = (if over_loadFactor (count t + 1) (tabledim t)
                    then tabledim t * 2 else tabledim t)"
    "live (table t') = insert \<lparr>hash = h, vptr = alloc_handle t s\<rparr> (live (table t))"
proof -
  obtain t3 n3 where m:
    "add_entry t h s i =
       ret (filled t3 (probe (tabledim t3) (unat h) n3) h s, Some (alloc_ptr t s))"
    "inv t3" "count t3 = count t + 1" "occupied t3 = occupied t"
    "pools t3 = pools t" "npools t3 = npools t" "nfill t3 = nfill t"
    "tabledim t3 = (if over_loadFactor (count t + 1) (tabledim t)
                    then tabledim t * 2 else tabledim t)"
    "first_stop (slots t3) (unat h) (h, s) n3"
    "vptr (table t3 ! probe (tabledim t3) (unat h) n3) = 0"
    "live (table t3) = live (table t)"
    "occupied t3 + 1 < tabledim t3"
    "\<not> over_loadFactor (count t3) (tabledim t3)"
    using add_entry_main[OF w room sz f v] by blast
  let ?j = "probe (tabledim t3) (unat h) n3"
  let ?t' = "filled t3 ?j h s"
  have ac: "alloc_pools t3 s = alloc_pools t s" "alloc_npools t3 s = alloc_npools t s"
    "alloc_base t3 s = alloc_base t s" "alloc_handle t3 s = alloc_handle t s"
    "alloc_ptr t3 s = alloc_ptr t s" "handle_room t3 = handle_room t"
    using alloc_cong[OF m(5,6,7)] by simp_all
  have room3: "handle_room t3" using room ac(6) by simp
  have c3: "count t3 = occupied t3 + 1" using m(3,4) wfD(2)[OF w] by simp
  note fw = filled_wf[OF m(2) room3 sz m(9,10) c3 m(12,13)]
  show ?thesis
  proof (rule that[of ?t' ?j])
    show "add_entry t h s i = ret (?t', Some (alloc_ptr t s))" using m(1) .
    show "wf ?t'" using fw(1) .
    show "findSlot ?t' h s = ret ?j" using fw(2) .
    show "?j < length (table ?t')" using fw(3) .
    show "table ?t' ! ?j = \<lparr>hash = h, vptr = alloc_handle t s\<rparr>" using fw(4) ac(4) by simp
    show "pools ?t' = alloc_pools t s" using ac(1) by simp
    show "npools ?t' = alloc_npools t s" using ac(2) by simp
    show "nfill ?t' = alloc_base t s + round8 (nbytes_of s)" using ac(3) by simp
    show "count ?t' = count t + 1" using m(3) by simp
    show "tabledim ?t' = (if over_loadFactor (count t + 1) (tabledim t)
                    then tabledim t * 2 else tabledim t)" using m(8) by simp
    show "live (table ?t') = insert \<lparr>hash = h, vptr = alloc_handle t s\<rparr> (live (table t))"
      using fw(5) ac(4) m(11) by simp
  qed
qed

section \<open>lookup, insert and update on a well-formed table\<close>

lemma find_present:
  assumes i: "inv t" and f: "findSlot t h s = ret i" and v: "vptr (table t ! i) \<noteq> 0"
  defines "sv \<equiv> handle_ptr (vptr (table t ! i))"
  shows "i < length (table t)" "hash (table t ! i) = h"
    "getValue t (vptr (table t ! i)) = Inr (Some sv)"
    "sv_length t sv = Inr (length s)" "sv_lstring t sv (length s) = Inr s"
    "slots t ! i = Some (h, s)"
proof -
  obtain n where n: "first_stop (slots t) (unat h) (h, s) n"
      "findSlot t h s = ret (probe (tabledim t) (unat h) n)"
      "probe (tabledim t) (unat h) n < length (table t)"
    using inv_findSlot[OF i] by blast
  have ie: "i = probe (tabledim t) (unat h) n" using f n(2) by simp
  show il: "i < length (table t)" using n(3) ie by simp
  have "stops_at (slots t) (h, s) i"
    using n(1) inv_length[OF i] by (simp add: first_stop_def ie)
  moreover have "slots t ! i \<noteq> None" using il v by (simp add: slots_nth slot_of_def)
  ultimately show sl: "slots t ! i = Some (h, s)" by (auto simp: stops_at_def)
  then have hk: "hash (table t ! i) = h" "rec_key (pools t) sv = s"
    using il v by (simp_all add: slots_nth slot_of_def sv_def)
  show "hash (table t ! i) = h" using hk(1) .
  have r: "rec_ok (pools t) (nfill t) sv"
    using invD(3)[OF i] v nth_mem[OF il] by (simp add: entries_ok_def sv_def)
  then show "getValue t (vptr (table t ! i)) = Inr (Some sv)"
    using v by (simp add: getValue_decode rec_ok_def sv_def)
  have l: "rec_len (pools t) sv = length s" using length_rec_key[OF r] hk(2) by simp
  show "sv_length t sv = Inr (length s)" using sv_length_ok[OF r] l by simp
  show "sv_lstring t sv (length s) = Inr s" using sv_lstring_key[OF r] l hk(2) by simp
qed

lemma entry_at_ret: "i < length tab \<Longrightarrow> entry_at tab i = ret (tab ! i)"
  by (simp add: entry_at_def)

lemma lookup_st_eq:
  assumes "findSlot t (calcHash s) s = ret i" "i < length (table t)"
    "getValue t (vptr (table t ! i)) = Inr r"
  shows "lookup_st t s = ret (t, r)"
  using assms by (simp add: lookup_st_def entry_at_ret)

lemma insert_st_present:
  assumes "findSlot t (calcHash s) s = ret i" "i < length (table t)" "vptr (table t ! i) \<noteq> 0"
  shows "insert_st t s = ret (t, None)"
  using assms by (simp add: insert_st_def entry_at_ret)

lemma insert_st_absent:
  assumes "findSlot t (calcHash s) s = ret i" "i < length (table t)" "vptr (table t ! i) = 0"
  shows "insert_st t s = add_entry t (calcHash s) s i"
  using assms by (simp add: insert_st_def entry_at_ret)

lemma update_st_present:
  assumes "findSlot t (calcHash s) s = ret i" "i < length (table t)" "vptr (table t ! i) \<noteq> 0"
    "getValue t (vptr (table t ! i)) = Inr r"
  shows "update_st t s = ret (t, r)"
  using assms by (simp add: update_st_def entry_at_ret)

lemma update_st_absent:
  assumes "findSlot t (calcHash s) s = ret i" "i < length (table t)" "vptr (table t ! i) = 0"
  shows "update_st t s = add_entry t (calcHash s) s i"
  using assms by (simp add: update_st_def entry_at_ret)
section \<open>Construction\<close>

subsection \<open>The division by the load factor and nextpow2\<close>

lemma blen_0 [simp]: "blen 0 = 0"
  by (simp add: blen.simps)

lemma blen_eq: "2 ^ k \<le> n \<Longrightarrow> n < 2 ^ Suc k \<Longrightarrow> blen n = Suc k"
proof (induction k arbitrary: n)
  case 0
  then have "n = 1" by simp
  then show ?case by (simp add: blen.simps)
next
  case (Suc k)
  have "2 ^ k \<le> n div 2" using Suc.prems(1) by simp
  moreover have "n div 2 < 2 ^ Suc k" using Suc.prems(2) by simp
  ultimately have "blen (n div 2) = Suc k" by (rule Suc.IH)
  moreover have "n \<noteq> 0"
  proof
    assume "n = 0"
    with Suc.prems(1) show False by simp
  qed
  ultimately show ?case by (subst blen.simps) simp
qed










lemma unat_pow2: "i < 64 \<Longrightarrow> unat (2 ^ i :: 64 word) = 2 ^ i"
proof -
  assume i: "i < 64"
  have "(2::nat) ^ i < 2 ^ 64" using i by (intro power_strict_increasing) simp_all
  then have "unat (of_nat (2 ^ i) :: 64 word) = 2 ^ i"
    by (simp only: unat_of_nat) simp
  then show ?thesis by simp
qed

lemma pow2_word_less: "i < 64 \<Longrightarrow> ((2 ^ i :: 64 word) < v) = (2 ^ i < unat v)"
  by (simp add: word_less_nat_alt unat_pow2)

lemma push_bit_pow2_word: "push_bit 1 (2 ^ i :: 64 word) = 2 ^ Suc i"
  by (simp add: push_bit_eq_mult)



lemma nextpow2_loop_0: "0 < v \<Longrightarrow> nextpow2_loop 0 v = None"
proof (rule ccontr)
  assume v: "0 < v" and "nextpow2_loop 0 v \<noteq> None"
  then obtain y where y: "nextpow2_loop 0 v = Some y" by auto
  have "\<not> (res = 0 \<and> 0 < w)" if "nextpow2_loop res w = Some r" for res w r
  proof (rule nextpow2_loop.raw_induct[where P = "\<lambda>res w r. \<not> (res = 0 \<and> 0 < w)", OF _ that])
    fix f res v resa
    assume ih: "\<And>v b y. f v b = Some y \<Longrightarrow> \<not> (v = 0 \<and> 0 < b)"
      and st: "(if res < v then f (push_bit 1 res) v else Some res) = Some resa"
    show "\<not> (res = 0 \<and> 0 < v)"
    proof
      assume a: "res = 0 \<and> 0 < v"
      then have "f 0 v = Some resa" using st by simp
      from ih[OF this] a show False by simp
    qed
  qed
  then show False using y v by blast
qed

lemma nextpow2_loop_diverges:
  assumes "i < 64" "2 ^ 63 < unat v"
  shows "nextpow2_loop (2 ^ i) v = None"
  using assms
proof (induction "63 - i" arbitrary: i)
  case 0
  then have i: "i = 63" by simp
  have lt: "(2 ^ i :: 64 word) < v" using 0(3) by (simp add: word_less_nat_alt i)
  have "push_bit 1 (2 ^ i :: 64 word) = 0" by (simp add: i push_bit_eq_mult)
  moreover have "0 < v" using 0(3) by (simp add: word_less_nat_alt)
  ultimately show ?case using lt nextpow2_loop_0[of v] by (subst nextpow2_loop.simps) simp
next
  case (Suc d)
  have i: "Suc i < 64" "d = 63 - Suc i" "i < 63" using Suc.hyps(2) by simp_all
  have "(2::nat) ^ i < 2 ^ 63" using i(3) by (intro power_strict_increasing) simp_all
  then have lt: "(2 ^ i :: 64 word) < v" using Suc.prems by (simp add: pow2_word_less)
  have "nextpow2_loop (2 ^ i) v = nextpow2_loop (push_bit 1 (2 ^ i)) v"
    by (subst nextpow2_loop.simps) (simp only: lt if_True)
  then show ?case
    using Suc.hyps(1)[OF i(2) i(1) Suc.prems(2)] by (simp only: push_bit_pow2_word)
qed

lemma nextpow2_diverges: "2 ^ 63 < unat v \<Longrightarrow> nextpow2 v = None"
  using nextpow2_loop_diverges[of 0 v] by (simp add: nextpow2_def)



subsection \<open>The table _init returns\<close>

lemma empty_table_wf:
  assumes "d = 2 ^ m"
  shows "wf \<lparr>table = replicate d empty_entry, tabledim = d,
             pools = [], npools = 0, nfill = 0, count = 0\<rparr>"
proof -
  let ?t = "\<lparr>table = replicate d empty_entry, tabledim = d,
             pools = [], npools = 0, nfill = 0, count = 0\<rparr>"
  have 1: "table_ok ?t" using assms by (auto simp: table_ok_def)
  have 2: "pools_ok ?t" by (simp add: pools_ok_def)
  have 3: "entries_ok ?t" by (simp add: entries_ok_def empty_entry_def)
  have 4: "placed ?t" by (simp add: placed_def empty_entry_def)
  have 5: "occupied ?t = 0" by (simp add: occupied_def empty_entry_def)
  have "0 < d" using assms by simp
  then have "inv ?t" using 1 2 3 4 5 by (simp add: inv_def)
  then show ?thesis using 5 by (simp add: wf_def over_loadFactor_def)
qed





subsection \<open>Hints beyond the range of size_t arithmetic\<close>

text \<open>For the hint \<open>2 ^ 63\<close> the quotient is \<open>5 * 2 ^ 61\<close>, above \<open>2 ^ 63\<close>: \<^verbatim>\<open>nextpow2\<close> wraps
  and \<^verbatim>\<open>_init\<close> does not return. For the hint \<open>2 ^ 64 - 1\<close> the quotient does not fit
  \<^verbatim>\<open>size_t\<close> and the conversion is undefined.\<close>

lemma to_double_2_63: "to_double (2 ^ 63) = 2 ^ 63"
proof -
  have "blen (2 ^ 63 div 1) = 64" by (rule blen_eq[of 63, simplified]) simp_all
  then show ?thesis by (simp add: to_double_def round53_def rne_def)
qed

lemma div_loadFactor_2_63: "div_loadFactor (2 ^ 63) = Inr (5 * 2 ^ 61)"
proof -
  have "blen ((2 ^ 63 * 2 ^ 104) div loadFactor_mant) = Suc 115"
    by (rule blen_eq) (simp_all add: loadFactor_mant_def)
  then have "round53 (2 ^ 63 * 2 ^ 104) loadFactor_mant = 5 * 2 ^ 113"
    by (simp add: round53_def rne_def loadFactor_mant_def)
  then show ?thesis unfolding div_loadFactor_def to_double_2_63 Let_def by simp
qed

lemma nextpow2_large: "nextpow2 (of_nat (5 * 2 ^ 61)) = None"
  by (rule nextpow2_diverges) simp

lemma to_double_max: "to_double (2 ^ 64 - 1) = 2 ^ 64"
proof -
  have "blen ((2 ^ 64 - 1) div 1) = Suc 63" by (rule blen_eq) simp_all
  then show ?thesis by (simp add: to_double_def round53_def rne_def)
qed

lemma div_loadFactor_max: "div_loadFactor (2 ^ 64 - 1) = Inl Fault"
proof -
  have "blen ((2 ^ 64 * 2 ^ 104) div loadFactor_mant) = Suc 116"
    by (rule blen_eq) (simp_all add: loadFactor_mant_def)
  then have "round53 (2 ^ 64 * 2 ^ 104) loadFactor_mant = 5 * 2 ^ 114"
    by (simp add: round53_def rne_def loadFactor_mant_def)
  then show ?thesis unfolding div_loadFactor_def to_double_max Let_def by simp
qed

lemma init_st_large_hint: "init_st (2 ^ 63) = None"
  unfolding init_st_def div_loadFactor_2_63 using nextpow2_large by (simp add: obind_def)

lemma init_st_max_hint: "init_st (2 ^ 64 - 1) = Some (Inl Fault)"
  unfolding init_st_def div_loadFactor_max by (simp add: obind_def)

section \<open>What the operations leave unchanged\<close>

lemma obind_retE:
  assumes "obind m f = ret y"
  obtains x where "m = ret x" "f x = ret y"
  using assms by (auto simp: obind_def ret_def split: option.splits sum.splits)

lemma obind_eq_iff:
  "(obind m f = Some (Inr y)) = (\<exists>x. m = Some (Inr x) \<and> f x = Some (Inr y))"
  by (auto simp: obind_def split: option.splits sum.splits)




lemma set_entry_retE:
  assumes "set_entry t i e = ret t'"
  shows "t' = t\<lparr>table := (table t)[i := e]\<rparr>" "i < length (table t)"
  using assms by (auto simp: set_entry_def ret_def fault_def split: if_splits)



lemma grow_loop_fields:
  assumes "grow_loop t otab i n = ret t'"
  shows "tabledim t' = tabledim t \<and> count t' = count t \<and> pools t' = pools t \<and>
         npools t' = npools t \<and> nfill t' = nfill t \<and> length (table t') = length (table t)"
  using assms
proof (induction n arbitrary: t i)
  case 0
  then show ?case by simp
next
  case (Suc n)
  obtain se where se: "entry_at otab i = ret se"
    and r: "(if vptr se = 0 then grow_loop t otab (i + 1) n
       else
         obind (Some (getValue t (vptr se))) (\<lambda>svo.
           case svo of
             None \<Rightarrow> fault
           | Some sv \<Rightarrow>
               obind (Some (sv_length t sv)) (\<lambda>len.
               obind (Some (sv_lstring t sv len)) (\<lambda>key.
               obind (findSlot t (hash se) key) (\<lambda>slot.
               obind (set_entry t slot se) (\<lambda>t'.
                 grow_loop t' otab (i + 1) n)))))) = ret t'"
    using Suc.prems by (auto elim!: obind_retE)
  show ?case
  proof (cases "vptr se = 0")
    case True
    then show ?thesis using r Suc.IH by simp
  next
    case False
    then obtain slot t2 where "set_entry t slot se = ret t2" "grow_loop t2 otab (i + 1) n = ret t'"
      using r by (auto simp: obind_eq_iff fault_def ret_def split: option.splits)
    then show ?thesis using Suc.IH[of t2 "i + 1"] set_entry_retE[of t slot se t2] by simp
  qed
qed

lemma grow_fields:
  assumes "grow t = ret t'"
  shows "tabledim t' = tabledim t * 2" "count t' = count t" "pools t' = pools t"
    "npools t' = npools t" "nfill t' = nfill t" "length (table t') = tabledim t * 2"
  using grow_loop_fields[OF assms[unfolded grow_def Let_def]] by simp_all





lemma lookup_st_state:
  assumes "lookup_st t s = ret (t', r)"
  shows "t' = t"
  using assms unfolding lookup_st_def Let_def by (auto elim!: obind_retE)



section \<open>Termination of the probe loop\<close>

lemma slot_hit_empty:
  "i < length (table t) \<Longrightarrow> vptr (table t ! i) = 0 \<Longrightarrow> slot_hit t h s i = Inr True"
  by (simp add: slot_hit_def)

lemma findSlot_loop_terminates:
  assumes e: "slot_hit t h s (probe (tabledim t) (unat h) n) = Inr True" and kn: "k \<le> n"
  shows "findSlot_loop t h s (probe (tabledim t) (unat h) k) (Suc k) \<noteq> None"
  using kn
proof (induction "n - k" arbitrary: k)
  case 0
  then have "k = n" by simp
  then show ?case using findSlot_loop_hit[OF e] by (simp add: ret_def)
next
  case (Suc d)
  then have d: "d = n - Suc k" and le: "Suc k \<le> n" by simp_all
  show ?case
  proof (cases "slot_hit t h s (probe (tabledim t) (unat h) k)")
    case (Inl f)
    then show ?thesis by (simp add: findSlot_loop_fault)
  next
    case (Inr b)
    show ?thesis
    proof (cases b)
      case True
      then show ?thesis using Inr findSlot_loop_hit[of t h s] by (simp add: ret_def)
    next
      case False
      then have "findSlot_loop t h s (probe (tabledim t) (unat h) k) (Suc k)
        = findSlot_loop t h s (probe (tabledim t) (unat h) (Suc k)) (Suc (Suc k))"
        using Inr by (simp add: findSlot_loop_miss probe_Suc)
      then show ?thesis using Suc.hyps(1)[OF d le] by simp
    qed
  qed
qed

lemma findSlot_terminates:
  assumes dim: "tabledim t = 2 ^ m" and i: "i < tabledim t" "i < length (table t)"
    and e: "vptr (table t ! i) = 0"
  shows "findSlot t h s \<noteq> None"
proof -
  have "i \<in> probe (2 ^ m) (unat h) ` {..<2 ^ m}"
    using probe_bij[of m "unat h"] i(1) dim by (simp add: bij_betw_def)
  then obtain n where n: "probe (tabledim t) (unat h) n = i" using dim by auto
  have "slot_hit t h s (probe (tabledim t) (unat h) n) = Inr True"
    unfolding n using i(2) e by (rule slot_hit_empty)
  then show ?thesis
    using findSlot_loop_terminates[of t h s n 0] by (simp add: findSlot_def probe_0)
qed

section \<open>The small table\<close>


lemma wf_table_4: "wf table_4"
  unfolding table_4_def using empty_table_wf[of 32 5] by simp

lemma handle_room_table_4: "handle_room table_4"
  by (simp add: handle_room_def table_4_def POOL_BITS_def)

lemma size_t_ok_foo: "size_t_ok key_foo"
  by (simp add: size_t_ok_def nbytes_of_def key_foo_def sizeof_StringValue_def)

lemma calcHash_foo: "calcHash key_foo = 2414502773"
  by (simp add: calcHash_def key_foo_def calcHash_tail_def m_const_def and_3_small Let_def)

subsection \<open>The operations on a well-formed table\<close>

lemma findSlot_empty_table:
  "\<exists>i<32. findSlot table_4 h s = ret i \<and> vptr (table table_4 ! i) = 0"
proof -
  obtain n where n: "findSlot table_4 h s = ret (probe (tabledim table_4) (unat h) n)"
      "probe (tabledim table_4) (unat h) n < length (table table_4)"
    using inv_findSlot[OF wfD(1)[OF wf_table_4], of h s] by blast
  let ?i = "probe (tabledim table_4) (unat h) n"
  have "?i < 32" using n(2) by (simp add: table_4_def)
  moreover have "vptr (table table_4 ! ?i) = 0"
    using n(2) by (simp add: table_4_def empty_entry_def)
  ultimately show ?thesis using n(1) by blast
qed

lemma lookup_empty_table: "lookup_st table_4 s = Some (Inr (table_4, None))"
proof -
  obtain i where i: "i < 32" "findSlot table_4 (calcHash s) s = ret i"
      "vptr (table table_4 ! i) = 0"
    using findSlot_empty_table by blast
  have "i < length (table table_4)" using i(1) by (simp add: table_4_def)
  moreover have "getValue table_4 (vptr (table table_4 ! i)) = Inr None"
    using i(3) by (simp add: getValue_decode)
  ultimately show ?thesis using lookup_st_eq[OF i(2)] by (simp add: ret_def)
qed

lemma pools_ok_table_4: "pools_ok table_4"
  by (simp add: pools_ok_def table_4_def)

lemma alloc_table_4:
  "new_pool_needed table_4 s" "alloc_base table_4 s = 0" "alloc_npools table_4 s = 1"
  "alloc_handle table_4 s = 4096" "alloc_ptr table_4 s = (0, 0)"
  by (simp_all add: new_pool_needed_def alloc_base_def alloc_npools_def alloc_handle_def
                    alloc_ptr_def table_4_def POOL_BITS_def)

lemma round8_facts: "8 dvd round8 n" "round8 n < n + 8"
proof -
  show "8 dvd round8 n" by (simp add: round8_def)
  define q r where "q = (n + 7) div 8" and "r = (n + 7) mod 8"
  have "q * 8 + r = n + 7" by (simp add: q_def r_def)
  then have "q * 8 < n + 8" by linarith
  then show "round8 n < n + 8" by (simp add: round8_def q_def)
qed

lemma size_t_ok_bar: "size_t_ok key_bar"
  by (simp add: size_t_ok_def nbytes_of_def key_bar_def sizeof_StringValue_def)

lemma nbytes_foo_bar: "nbytes_of key_foo = 20" "nbytes_of key_bar = 20"
  "round8 20 = 24" "length key_foo = 3" "length key_bar = 3"
  by (simp_all add: nbytes_of_def key_foo_def key_bar_def sizeof_StringValue_def round8_def)

lemma wf_find:
  assumes "inv t"
  obtains i where "findSlot t h s = ret i" "i < length (table t)"
  using inv_findSlot[OF assms, of h s] by blast

lemma present_then:
  assumes i: "inv t" and f: "findSlot t (calcHash s) s = ret i" and v: "vptr (table t ! i) \<noteq> 0"
  defines "sv \<equiv> handle_ptr (vptr (table t ! i))"
  shows "lookup_st t s = ret (t, Some sv)" "insert_st t s = ret (t, None)"
    "update_st t s = ret (t, Some sv)"
    "sv_length t sv = Inr (length s)" "sv_lstring t sv (length s) = Inr s"
proof -
  note p = find_present[OF i f v]
  show "lookup_st t s = ret (t, Some sv)"
    using lookup_st_eq[OF f p(1) p(3)] by (simp add: sv_def)
  show "insert_st t s = ret (t, None)" using insert_st_present[OF f p(1) v] .
  show "update_st t s = ret (t, Some sv)"
    using update_st_present[OF f p(1) v p(3)] by (simp add: sv_def)
  show "sv_length t sv = Inr (length s)" using p(4) by (simp add: sv_def)
  show "sv_lstring t sv (length s) = Inr s" using p(5) by (simp add: sv_def)
qed

lemma absent_then:
  assumes "findSlot t (calcHash s) s = ret i" "i < length (table t)" "vptr (table t ! i) = 0"
  shows "lookup_st t s = ret (t, None)"
    "insert_st t s = add_entry t (calcHash s) s i"
    "update_st t s = add_entry t (calcHash s) s i"
proof -
  have "getValue t (vptr (table t ! i)) = Inr None"
    using assms(3) by (simp add: getValue_decode)
  then show "lookup_st t s = ret (t, None)" using lookup_st_eq[OF assms(1,2)] by simp
  show "insert_st t s = add_entry t (calcHash s) s i" using insert_st_absent[OF assms] .
  show "update_st t s = add_entry t (calcHash s) s i" using update_st_absent[OF assms] .
qed

lemma add_entry_then:
  assumes w: "wf t" and room: "handle_room t" and sz: "size_t_ok s"
    and f: "findSlot t (calcHash s) s = ret i" and v: "vptr (table t ! i) = 0"
  obtains t' where
    "add_entry t (calcHash s) s i = ret (t', Some (alloc_ptr t s))" "wf t'"
    "lookup_st t' s = ret (t', Some (alloc_ptr t s))"
    "insert_st t' s = ret (t', None)"
    "update_st t' s = ret (t', Some (alloc_ptr t s))"
    "sv_length t' (alloc_ptr t s) = Inr (length s)"
    "sv_lstring t' (alloc_ptr t s) (length s) = Inr s"
    "sv_lstring t' (alloc_ptr t s) (length s + 1) = Inr (s @ [0])"
    "npools t' = alloc_npools t s" "count t' = count t + 1"
    "tabledim t' = (if over_loadFactor (count t + 1) (tabledim t)
                    then tabledim t * 2 else tabledim t)"
proof -
  obtain t' j where a: "add_entry t (calcHash s) s i = ret (t', Some (alloc_ptr t s))" "wf t'"
    "findSlot t' (calcHash s) s = ret j" "j < length (table t')"
    "table t' ! j = \<lparr>hash = calcHash s, vptr = alloc_handle t s\<rparr>"
    "pools t' = alloc_pools t s" "npools t' = alloc_npools t s"
    "count t' = count t + 1"
    "tabledim t' = (if over_loadFactor (count t + 1) (tabledim t)
                    then tabledim t * 2 else tabledim t)"
    using add_entry_wf[OF w room sz f v] by metis
  have pok: "pools_ok t" using invD(2)[OF wfD(1)[OF w]] .
  have nz: "vptr (table t' ! j) \<noteq> 0" using alloc_handle_ptr(1)[OF room, of s] a(5) by simp
  have g: "getValue t' (vptr (table t' ! j)) = Inr (Some (alloc_ptr t s))"
    using new_record_getValue[OF pok room a(6)] a(5) by simp
  note rd = new_record_reads[OF pok sz a(6)]
  show ?thesis
  proof (rule that)
    show "add_entry t (calcHash s) s i = ret (t', Some (alloc_ptr t s))" by (rule a(1))
    show "wf t'" by (rule a(2))
    show "lookup_st t' s = ret (t', Some (alloc_ptr t s))" using lookup_st_eq[OF a(3,4) g] .
    show "insert_st t' s = ret (t', None)" using insert_st_present[OF a(3,4) nz] .
    show "update_st t' s = ret (t', Some (alloc_ptr t s))"
      using update_st_present[OF a(3,4) nz g] .
    show "sv_length t' (alloc_ptr t s) = Inr (length s)" by (rule rd(1))
    show "sv_lstring t' (alloc_ptr t s) (length s) = Inr s" by (rule rd(2))
    show "sv_lstring t' (alloc_ptr t s) (length s + 1) = Inr (s @ [0])" by (rule rd(3))
    show "npools t' = alloc_npools t s" by (rule a(7))
    show "count t' = count t + 1" by (rule a(8))
    show "tabledim t' = (if over_loadFactor (count t + 1) (tabledim t)
                    then tabledim t * 2 else tabledim t)" by (rule a(9))
  qed
qed

lemma insert_foo:
  obtains t1 where "insert_st table_4 key_foo = ret (t1, Some (0, 0))" "wf t1"
    "update_st table_4 key_foo = ret (t1, Some (0, 0))"
    "lookup_st t1 key_foo = ret (t1, Some (0, 0))" "handle_room t1"
    "count t1 = 1" "tabledim t1 = 32"
proof -
  obtain i where i: "i < 32" "findSlot table_4 (calcHash key_foo) key_foo = ret i"
      "vptr (table table_4 ! i) = 0"
    using findSlot_empty_table by blast
  have il: "i < length (table table_4)" using i(1) by (simp add: table_4_def)
  obtain t1 where t1: "add_entry table_4 (calcHash key_foo) key_foo i
        = ret (t1, Some (alloc_ptr table_4 key_foo))" "wf t1"
      "lookup_st t1 key_foo = ret (t1, Some (alloc_ptr table_4 key_foo))"
      "npools t1 = alloc_npools table_4 key_foo" "count t1 = count table_4 + 1"
      "tabledim t1 = (if over_loadFactor (count table_4 + 1) (tabledim table_4)
                    then tabledim table_4 * 2 else tabledim table_4)"
    using add_entry_then[OF wf_table_4 handle_room_table_4 size_t_ok_foo i(2,3)] by metis
  note ab = absent_then[OF i(2) il i(3)]
  show ?thesis
  proof (rule that)
    show "insert_st table_4 key_foo = ret (t1, Some (0, 0))"
      using ab(2) t1(1) by (simp add: alloc_table_4)
    show "update_st table_4 key_foo = ret (t1, Some (0, 0))"
      using ab(3) t1(1) by (simp add: alloc_table_4)
    show "wf t1" by (rule t1(2))
    show "lookup_st t1 key_foo = ret (t1, Some (0, 0))" using t1(3) by (simp add: alloc_table_4)
    show "handle_room t1" using t1(4) by (simp add: handle_room_def alloc_table_4 POOL_BITS_def)
    show "count t1 = 1" using t1(5) by (simp add: table_4_def)
    show "tabledim t1 = 32" using t1(6) by (simp add: table_4_def over_loadFactor_def)
  qed
qed

lemma sv_cong:
  assumes "pools t' = pools t"
  shows "sv_length t' sv = sv_length t sv" "sv_lstring t' sv n = sv_lstring t sv n"
    "sv_ptrvalue t' sv = sv_ptrvalue t sv"
  using assms
  by (simp_all add: sv_length_def sv_lstring_def sv_ptrvalue_def sv_read_def split: prod.splits)

lemma lookup_found:
  assumes i: "inv t" and l: "lookup_st t s = ret (t, Some sv)"
  obtains j where "findSlot t (calcHash s) s = ret j" "j < length (table t)"
    "vptr (table t ! j) \<noteq> 0" "sv = handle_ptr (vptr (table t ! j))"
    "slots t ! j = Some (calcHash s, s)"
proof -
  obtain j where j: "findSlot t (calcHash s) s = ret j" "j < length (table t)"
    using wf_find[OF i] by blast
  have v: "vptr (table t ! j) \<noteq> 0"
  proof
    assume "vptr (table t ! j) = 0"
    then show False using absent_then(1)[OF j] l by (simp add: ret_def)
  qed
  have "sv = handle_ptr (vptr (table t ! j))"
    using present_then(1)[OF i j(1) v] l by (simp add: ret_def)
  then show ?thesis using that[OF j v _ find_present(6)[OF i j(1) v]] by blast
qed

lemma lookup_after_grow:
  assumes i: "inv t" and r: "rehashed t (length (table t)) t'"
  shows "lookup_st t s = ret (t, Some sv) \<Longrightarrow> lookup_st t' s = ret (t', Some sv)"
    and "lookup_st t s = ret (t, None) \<Longrightarrow> lookup_st t' s = ret (t', None)"
proof -
  note i' = grown_inv(1)[OF i r]
  {
    assume l: "lookup_st t s = ret (t, Some sv)"
    obtain j where j: "findSlot t (calcHash s) s = ret j" "j < length (table t)"
      "vptr (table t ! j) \<noteq> 0" "sv = handle_ptr (vptr (table t ! j))"
      "slots t ! j = Some (calcHash s, s)"
      using lookup_found[OF i l] by blast
    obtain j' where j': "j' < length (table t')" "table t' ! j' = table t ! j"
      "findSlot t' (calcHash s) s = ret j'"
      using found_after_rehash[OF i r j(2,5)] by blast
    have "vptr (table t' ! j') \<noteq> 0" using j(3) j'(2) by simp
    then show "lookup_st t' s = ret (t', Some sv)"
      using present_then(1)[OF i' j'(3)] by (simp add: j'(2) j(4))
  }
  {
    assume l: "lookup_st t s = ret (t, None)"
    obtain j where j: "findSlot t (calcHash s) s = ret j" "j < length (table t)"
      using wf_find[OF i] by blast
    have v: "vptr (table t ! j) = 0"
    proof (rule ccontr)
      assume "vptr (table t ! j) \<noteq> 0"
      then show False using present_then(1)[OF i j(1)] l by (simp add: ret_def)
    qed
    obtain n where n: "findSlot t' (calcHash s) s = ret (probe (tabledim t') (unat (calcHash s)) n)"
      "vptr (table t' ! probe (tabledim t') (unat (calcHash s)) n) = 0"
      using absent_after_rehash[OF i r j(1) v] by blast
    have "probe (tabledim t') (unat (calcHash s)) n < length (table t')"
      using table_ok_probe_less[OF invD(1)[OF i']] .
    then show "lookup_st t' s = ret (t', None)" using absent_then(1)[OF n(1) _ n(2)] by simp
  }
qed



section \<open>The claims\<close>

text \<open>
  Claim C9. Decoding the handle 0 gives the null record whatever the pools are, also when
  there are none, so no pool is read. For every pool number \<open>np\<close> from 1 below \<open>2 ^ 20\<close> and
  every offset \<open>b\<close> below \<^verbatim>\<open>POOL_SIZE\<close>, decoding the handle \<^verbatim>\<open>np << POOL_BITS | b\<close> gives pool
  index \<open>np - 1\<close> and offset \<open>b\<close>; in particular the handle \<^verbatim>\<open>allocValue\<close> returns is not
  0 and decodes to the last pool and the cursor before the advance.
\<close>

theorem handle_decode_roundtrip:
  "getValue t 0 = Inr None \<and>
   (0 < np \<and> np < 2 ^ (32 - POOL_BITS) \<and> b < POOL_SIZE \<and> np \<le> length (pools t) \<longrightarrow>
      getValue t (of_nat (push_bit POOL_BITS np OR b)) = Inr (Some (np - 1, b))) \<and>
   (pools_ok t \<and> size_t_ok s \<and> handle_room t \<and> allocValue t s = Inr (t', v) \<longrightarrow>
      v \<noteq> 0 \<and> getValue t' v = Inr (Some (npools t' - 1, alloc_base t s)))"
proof (intro conjI impI)
  show "getValue t 0 = Inr None" by (rule getValue_decode(1))
next
  assume a: "0 < np \<and> np < 2 ^ (32 - POOL_BITS) \<and> b < POOL_SIZE \<and> np \<le> length (pools t)"
  then have np: "0 < np" "np < 2 ^ 20" and b: "b < 2 ^ 12" and l: "np \<le> length (pools t)"
    by (simp_all add: POOL_BITS_def POOL_SIZE_def)
  note d = handle_decode[OF np b]
  show "getValue t (of_nat (push_bit POOL_BITS np OR b)) = Inr (Some (np - 1, b))"
    using d np(1) l by (simp add: getValue_decode)
next
  assume a: "pools_ok t \<and> size_t_ok s \<and> handle_room t \<and> allocValue t s = Inr (t', v)"
  then have e: "t' = alloc_state t s" "v = alloc_handle t s"
    using allocValue_eq[of t s] by simp_all
  have p: "pools t' = alloc_pools t s" "npools t' = alloc_npools t s"
    by (simp_all add: e alloc_state_def)
  show "v \<noteq> 0" using a alloc_handle_ptr(1)[of t s] by (simp add: e)
  show "getValue t' v = Inr (Some (npools t' - 1, alloc_base t s))"
    using a new_record_getValue[of t t' s] p by (simp add: e(2) alloc_ptr_def)
qed

theorem handle_decode_roundtrip_witness:
  "getValue table_4 0 = Inr None \<and>
   pools_ok table_4 \<and> size_t_ok key_foo \<and> handle_room table_4 \<and>
   (\<exists>t'. allocValue table_4 key_foo = Inr (t', 4096) \<and> length (pools t') = 1 \<and>
         getValue t' 4096 = Inr (Some (0, 0)) \<and>
         getValue t' (of_nat (push_bit POOL_BITS 1 OR 24)) = Inr (Some (0, 24)))"
proof -
  let ?t' = "alloc_state table_4 key_foo"
  have a: "allocValue table_4 key_foo = Inr (?t', 4096)"
    using allocValue_eq[OF pools_ok_table_4 size_t_ok_foo] by (simp add: alloc_table_4)
  have l: "length (pools ?t') = 1"
    using length_alloc_pools[OF pools_ok_table_4, of key_foo]
    by (simp add: alloc_state_def alloc_table_4)
  have n: "npools ?t' = 1" by (simp add: alloc_state_def alloc_table_4)
  have 1: "getValue table_4 0 = Inr None"
    using handle_decode_roundtrip[of table_4] by simp
  have 2: "getValue ?t' 4096 = Inr (Some (0, 0))"
    using handle_decode_roundtrip[of table_4 _ _ key_foo ?t' 4096] a
      pools_ok_table_4 size_t_ok_foo handle_room_table_4
    by (simp add: n alloc_table_4)
  have 3: "getValue ?t' (of_nat (push_bit POOL_BITS 1 OR 24)) = Inr (Some (0, 24))"
    using handle_decode_roundtrip[of ?t' 1 24] l
    by (simp add: POOL_BITS_def POOL_SIZE_def)
  show ?thesis
    using 1 2 3 a l pools_ok_table_4 size_t_ok_foo handle_room_table_4 by blast
qed

text \<open>
  Claim C7. On a table whose pools are as \<^verbatim>\<open>allocValue\<close> leaves them, \<^verbatim>\<open>allocValue\<close> returns.
  With \<open>nbytes_of s\<close> the header size plus the length plus 1: it opens a new pool exactly
  when there is none or the cursor plus \<open>nbytes_of s\<close> exceeds \<^verbatim>\<open>POOL_SIZE\<close>, of size
  \<open>max (nbytes_of s) POOL_SIZE\<close> and with the record at offset 0; the record it writes
  has a null payload, the length of \<open>s\<close>, the bytes of \<open>s\<close> and a terminating zero; the
  cursor advances by \<open>nbytes_of s\<close> rounded up to a multiple of 8; the handle is
  \<^verbatim>\<open>npools << POOL_BITS | offset\<close> for the new pool count and the offset before the advance;
  all earlier pools are unchanged, so are the bytes below the cursor in the pool written
  to, and so are the entry array, its dimension and the count.
\<close>

theorem allocValue_spec:
  assumes "pools_ok t" "size_t_ok s"
  shows "\<exists>t' v. allocValue t s = Inr (t', v) \<and>
     nbytes_of s = sizeof_StringValue + length s + 1 \<and>
     new_pool_needed t s = (npools t = 0 \<or> POOL_SIZE < nfill t + nbytes_of s) \<and>
     npools t' = (if new_pool_needed t s then npools t + 1 else npools t) \<and>
     length (pools t') = npools t' \<and>
     (new_pool_needed t s \<longrightarrow> length (pools t' ! npools t) = max (nbytes_of s) POOL_SIZE) \<and>
     alloc_base t s = (if new_pool_needed t s then 0 else nfill t) \<and>
     sv_ptrvalue t' (npools t' - 1, alloc_base t s) = Inr 0 \<and>
     sv_length t' (npools t' - 1, alloc_base t s) = Inr (length s) \<and>
     sv_lstring t' (npools t' - 1, alloc_base t s) (length s + 1) = Inr (s @ [0]) \<and>
     nfill t' = alloc_base t s + round8 (nbytes_of s) \<and>
     8 dvd round8 (nbytes_of s) \<and> nbytes_of s \<le> round8 (nbytes_of s) \<and>
     round8 (nbytes_of s) < nbytes_of s + 8 \<and>
     v = of_nat (push_bit POOL_BITS (npools t') OR alloc_base t s) \<and>
     (\<forall>i<npools t. i + 1 < npools t' \<longrightarrow> pools t' ! i = pools t ! i) \<and>
     (\<not> new_pool_needed t s \<longrightarrow>
        length (pools t' ! (npools t - 1)) = length (pools t ! (npools t - 1)) \<and>
        take (nfill t) (pools t' ! (npools t - 1)) = take (nfill t) (pools t ! (npools t - 1))) \<and>
     table t' = table t \<and> tabledim t' = tabledim t \<and> count t' = count t"
proof -
  let ?t' = "alloc_state t s"
  let ?v = "alloc_handle t s"
  have len: "length (pools t) = npools t" using assms(1) by (simp add: pools_ok_def)
  have a: "allocValue t s = Inr (?t', ?v)" using allocValue_eq[OF assms] .
  have f: "pools ?t' = alloc_pools t s" "npools ?t' = alloc_npools t s"
    "nfill ?t' = alloc_base t s + round8 (nbytes_of s)"
    "table ?t' = table t" "tabledim ?t' = tabledim t" "count ?t' = count t"
    by (simp_all add: alloc_state_def)
  have n: "npools ?t' = (if new_pool_needed t s then npools t + 1 else npools t)"
    by (simp add: f alloc_npools_def)
  have l: "length (pools ?t') = npools ?t'"
    using length_alloc_pools[OF assms(1)] by (simp add: f)
  have np: "new_pool_needed t s \<Longrightarrow>
            length (pools ?t' ! npools t) = max (nbytes_of s) POOL_SIZE"
  proof -
    assume "new_pool_needed t s"
    then have "pools ?t' ! npools t = put_record (fresh_pool s) 0 s"
      by (simp add: f alloc_pools_def len[symmetric])
    moreover have "length (put_record (fresh_pool s) 0 s) = length (fresh_pool s)"
      by (rule length_put_record) (simp add: fresh_pool_def)
    ultimately show ?thesis by (simp add: fresh_pool_def)
  qed
  note rd = new_record_reads[OF assms f(1)]
  have ptr: "alloc_ptr t s = (npools ?t' - 1, alloc_base t s)"
    by (simp add: alloc_ptr_def f)
  have old: "pools ?t' ! i = pools t ! i" if "i < npools t" "i + 1 < npools ?t'" for i
    using that len by (auto simp: f alloc_pools_def alloc_npools_def nth_append split: if_splits)
  have same: "length (pools ?t' ! (npools t - 1)) = length (pools t ! (npools t - 1)) \<and>
        take (nfill t) (pools ?t' ! (npools t - 1)) = take (nfill t) (pools t ! (npools t - 1))"
    if nn: "\<not> new_pool_needed t s"
  proof -
    have np0: "npools t \<noteq> 0" using nn by (auto simp: new_pool_needed_def)
    have p: "pools ?t' ! (npools t - 1) = put_record (pools t ! (npools t - 1)) (nfill t) s"
      using nn np0 len by (simp add: f alloc_pools_def)
    have fits: "nfill t + nbytes_of s \<le> length (pools t ! (npools t - 1))"
      using alloc_target_fits[OF assms(1) nn] .
    have "take (nfill t) (drop 0 (put_record (pools t ! (npools t - 1)) (nfill t) s))
          = take (nfill t) (drop 0 (pools t ! (npools t - 1)))"
      using fits by (intro put_record_below) simp_all
    then show ?thesis using length_put_record[OF fits] p by simp
  qed
  have "allocValue t s = Inr (?t', ?v) \<and>
     nbytes_of s = sizeof_StringValue + length s + 1 \<and>
     new_pool_needed t s = (npools t = 0 \<or> POOL_SIZE < nfill t + nbytes_of s) \<and>
     npools ?t' = (if new_pool_needed t s then npools t + 1 else npools t) \<and>
     length (pools ?t') = npools ?t' \<and>
     (new_pool_needed t s \<longrightarrow> length (pools ?t' ! npools t) = max (nbytes_of s) POOL_SIZE) \<and>
     alloc_base t s = (if new_pool_needed t s then 0 else nfill t) \<and>
     sv_ptrvalue ?t' (npools ?t' - 1, alloc_base t s) = Inr 0 \<and>
     sv_length ?t' (npools ?t' - 1, alloc_base t s) = Inr (length s) \<and>
     sv_lstring ?t' (npools ?t' - 1, alloc_base t s) (length s + 1) = Inr (s @ [0]) \<and>
     nfill ?t' = alloc_base t s + round8 (nbytes_of s) \<and>
     8 dvd round8 (nbytes_of s) \<and> nbytes_of s \<le> round8 (nbytes_of s) \<and>
     round8 (nbytes_of s) < nbytes_of s + 8 \<and>
     ?v = of_nat (push_bit POOL_BITS (npools ?t') OR alloc_base t s) \<and>
     (\<forall>i<npools t. i + 1 < npools ?t' \<longrightarrow> pools ?t' ! i = pools t ! i) \<and>
     (\<not> new_pool_needed t s \<longrightarrow>
        length (pools ?t' ! (npools t - 1)) = length (pools t ! (npools t - 1)) \<and>
        take (nfill t) (pools ?t' ! (npools t - 1)) = take (nfill t) (pools t ! (npools t - 1))) \<and>
     table ?t' = table t \<and> tabledim ?t' = tabledim t \<and> count ?t' = count t"
  proof (intro conjI allI impI)
    show "allocValue t s = Inr (?t', ?v)" by (rule a)
    show "nbytes_of s = sizeof_StringValue + length s + 1" by (simp add: nbytes_of_def)
    show "new_pool_needed t s = (npools t = 0 \<or> POOL_SIZE < nfill t + nbytes_of s)"
      by (simp add: new_pool_needed_def)
    show "npools ?t' = (if new_pool_needed t s then npools t + 1 else npools t)" by (rule n)
    show "length (pools ?t') = npools ?t'" by (rule l)
    show "alloc_base t s = (if new_pool_needed t s then 0 else nfill t)"
      by (simp add: alloc_base_def)
    show "sv_ptrvalue ?t' (npools ?t' - 1, alloc_base t s) = Inr 0"
      using rd(4) by (simp only: ptr)
    show "sv_length ?t' (npools ?t' - 1, alloc_base t s) = Inr (length s)"
      using rd(1) by (simp only: ptr)
    show "sv_lstring ?t' (npools ?t' - 1, alloc_base t s) (length s + 1) = Inr (s @ [0])"
      using rd(3) by (simp only: ptr)
    show "nfill ?t' = alloc_base t s + round8 (nbytes_of s)" by (rule f(3))
    show "8 dvd round8 (nbytes_of s)" by (rule round8_facts(1))
    show "nbytes_of s \<le> round8 (nbytes_of s)" by (rule round8_ge)
    show "round8 (nbytes_of s) < nbytes_of s + 8" by (rule round8_facts(2))
    show "?v = of_nat (push_bit POOL_BITS (npools ?t') OR alloc_base t s)"
      by (simp add: alloc_handle_def f)
    show "table ?t' = table t" by (rule f(4))
    show "tabledim ?t' = tabledim t" by (rule f(5))
    show "count ?t' = count t" by (rule f(6))
  next
    assume "new_pool_needed t s"
    then show "length (pools ?t' ! npools t) = max (nbytes_of s) POOL_SIZE" by (rule np)
  next
    fix i assume "i < npools t" "i + 1 < npools ?t'"
    then show "pools ?t' ! i = pools t ! i" by (rule old)
  next
    assume "\<not> new_pool_needed t s"
    then show "length (pools ?t' ! (npools t - 1)) = length (pools t ! (npools t - 1))"
      using same by blast
  next
    assume "\<not> new_pool_needed t s"
    then show "take (nfill t) (pools ?t' ! (npools t - 1)) = take (nfill t) (pools t ! (npools t - 1))"
      using same by blast
  qed
  then show ?thesis by blast
qed

theorem allocValue_spec_witness:
  "pools_ok table_4 \<and> size_t_ok key_foo \<and>
   (\<exists>t1 v1. allocValue table_4 key_foo = Inr (t1, v1) \<and> v1 = 4096 \<and>
      npools t1 = 1 \<and> nfill t1 = 24 \<and> length (pools t1 ! 0) = 4096 \<and>
      sv_ptrvalue t1 (0, 0) = Inr 0 \<and> sv_length t1 (0, 0) = Inr 3 \<and>
      sv_lstring t1 (0, 0) 4 = Inr (key_foo @ [0]) \<and>
      pools_ok t1 \<and> size_t_ok key_bar \<and>
      (\<exists>t2 v2. allocValue t1 key_bar = Inr (t2, v2) \<and> v2 = 4120 \<and>
         npools t2 = 1 \<and> nfill t2 = 48 \<and> sv_length t2 (0, 24) = Inr 3 \<and>
         take 24 (pools t2 ! 0) = take 24 (pools t1 ! 0)))"
proof -
  obtain t1 v1 where a1: "allocValue table_4 key_foo = Inr (t1, v1)"
    and b1: "v1 = of_nat (push_bit POOL_BITS (npools t1) OR alloc_base table_4 key_foo)"
      "npools t1 = (if new_pool_needed table_4 key_foo then npools table_4 + 1 else npools table_4)"
      "nfill t1 = alloc_base table_4 key_foo + round8 (nbytes_of key_foo)"
      "new_pool_needed table_4 key_foo \<longrightarrow>
         length (pools t1 ! npools table_4) = max (nbytes_of key_foo) POOL_SIZE"
      "sv_ptrvalue t1 (npools t1 - 1, alloc_base table_4 key_foo) = Inr 0"
      "sv_length t1 (npools t1 - 1, alloc_base table_4 key_foo) = Inr (length key_foo)"
      "sv_lstring t1 (npools t1 - 1, alloc_base table_4 key_foo) (length key_foo + 1)
         = Inr (key_foo @ [0])"
    using allocValue_spec[OF pools_ok_table_4 size_t_ok_foo] by blast
  have n0: "npools table_4 = 0" by (simp add: table_4_def)
  have c1: "v1 = 4096" "npools t1 = 1" "nfill t1 = 24" "length (pools t1 ! 0) = 4096"
    "sv_ptrvalue t1 (0, 0) = Inr 0" "sv_length t1 (0, 0) = Inr 3"
    "sv_lstring t1 (0, 0) 4 = Inr (key_foo @ [0])"
    using b1 by (simp_all add: alloc_table_4 nbytes_foo_bar n0 POOL_BITS_def POOL_SIZE_def)
  have t1: "t1 = alloc_state table_4 key_foo"
    using a1 allocValue_eq[OF pools_ok_table_4 size_t_ok_foo] by simp
  have p1: "pools_ok t1" unfolding t1 by (rule pools_ok_alloc_state[OF pools_ok_table_4])
  have nn: "\<not> new_pool_needed t1 key_bar" "alloc_base t1 key_bar = 24"
    by (simp_all add: new_pool_needed_def alloc_base_def c1 nbytes_foo_bar POOL_SIZE_def POOL_BITS_def)
  obtain t2 v2 where a2: "allocValue t1 key_bar = Inr (t2, v2)"
    and b2: "v2 = of_nat (push_bit POOL_BITS (npools t2) OR alloc_base t1 key_bar)"
      "npools t2 = (if new_pool_needed t1 key_bar then npools t1 + 1 else npools t1)"
      "nfill t2 = alloc_base t1 key_bar + round8 (nbytes_of key_bar)"
      "sv_length t2 (npools t2 - 1, alloc_base t1 key_bar) = Inr (length key_bar)"
      "\<not> new_pool_needed t1 key_bar \<longrightarrow>
        length (pools t2 ! (npools t1 - 1)) = length (pools t1 ! (npools t1 - 1)) \<and>
        take (nfill t1) (pools t2 ! (npools t1 - 1)) = take (nfill t1) (pools t1 ! (npools t1 - 1))"
    using allocValue_spec[OF p1 size_t_ok_bar] by blast
  have c2: "v2 = 4120" "npools t2 = 1" "nfill t2 = 48" "sv_length t2 (0, 24) = Inr 3"
    "take 24 (pools t2 ! 0) = take 24 (pools t1 ! 0)"
    using b2 by (simp_all add: nn c1 nbytes_foo_bar POOL_BITS_def)
  show ?thesis
    using a1 c1 p1 a2 c2 pools_ok_table_4 size_t_ok_foo size_t_ok_bar
    by (intro conjI exI[of _ t1] exI[of _ v1] exI[of _ t2] exI[of _ v2])
qed

text \<open>
  Claim C8. \<^verbatim>\<open>calcHash\<close> is a function of the bytes alone (it reads no other state, so
  equal input gives equal output), and on every byte string it returns the value of the
  algorithm of section 4.1: seed \<open>h = length\<close>, the mixing of each four-byte block with
  \<open>m = 0x5bd1e995\<close> and the shift by 24, the tail bytes folded in by shifted XORs and one
  multiplication, and the finalization with the shifts by 13 and 15.
\<close>

theorem calcHash_is_spec_hash: "calcHash bs = spec_hash bs"
proof -
  have "length (drop (4 * (length bs div 4)) bs) < 4" by simp
  then show ?thesis
    by (simp add: calcHash_def spec_hash_def calcHash_loop_spec calcHash_tail_spec
                  spec_final_def m_const_def Let_def)
qed

text \<open>
  Claim C10. \<^verbatim>\<open>lookup\<close> is read-only: whenever it returns, found or not, the table it
  leaves is the table it was called on, with the same count, capacity, entries, pools,
  bump cursor and record bytes; and on a well-formed table it does return.
\<close>

theorem lookup_read_only:
  "(lookup_st t s = Some (Inr (t', r)) \<longrightarrow> t' = t) \<and>
   (inv t \<longrightarrow> (\<exists>r. lookup_st t s = Some (Inr (t, r))))"
proof (intro conjI impI)
  assume "lookup_st t s = Some (Inr (t', r))"
  then show "t' = t" using lookup_st_state[of t s t' r] by (simp add: ret_def)
next
  assume i: "inv t"
  obtain j where j: "findSlot t (calcHash s) s = ret j" "j < length (table t)"
    using wf_find[OF i] by blast
  show "\<exists>r. lookup_st t s = Some (Inr (t, r))"
  proof (cases "vptr (table t ! j) = 0")
    case True
    then show ?thesis using absent_then(1)[OF j] by (simp add: ret_def)
  next
    case False
    then show ?thesis using present_then(1)[OF i j(1)] by (simp add: ret_def)
  qed
qed

theorem lookup_read_only_witness:
  "lookup_st table_4 key_foo = Some (Inr (table_4, None)) \<and> inv table_4 \<and>
   (\<exists>r. lookup_st table_4 key_foo = Some (Inr (table_4, r)))"
  using lookup_read_only[of table_4 key_foo table_4 None] lookup_empty_table[of key_foo]
    wfD(1)[OF wf_table_4]
  by simp

text \<open>
  Claim C5. The slot \<^verbatim>\<open>findSlot\<close> examines first is \<^verbatim>\<open>hash & (tabledim - 1)\<close>, and from the
  \<open>k\<close>-th slot it examines, with \<^verbatim>\<open>j = k + 1\<close>, it either returns or goes on to the slot
  \<^verbatim>\<open>(i + j) & (tabledim - 1)\<close> with \<^verbatim>\<open>j\<close> one more: \<open>probe\<close> is the sequence of these slots.
  When the dimension is a power of two, the first \<open>tabledim\<close> slots of the sequence are
  all the slots of the table, each exactly once. Hence \<^verbatim>\<open>findSlot\<close> returns whenever some
  slot of the table is empty; and on a table whose records are intact and that has an
  empty slot it returns one of these first \<open>tabledim\<close> slots.
\<close>

theorem probe_visits_every_slot:
  "probe dim h 0 = h AND (dim - 1) \<and>
   probe dim h (Suc k) = (probe dim h k + Suc k) AND (dim - 1) \<and>
   findSlot t hs s = findSlot_loop t hs s (probe (tabledim t) (unat hs) 0) 1 \<and>
   findSlot_loop t hs s (probe (tabledim t) (unat hs) k) (Suc k) =
     (case slot_hit t hs s (probe (tabledim t) (unat hs) k) of
        Inl e \<Rightarrow> Some (Inl e)
      | Inr hit \<Rightarrow>
          if hit then Some (Inr (probe (tabledim t) (unat hs) k))
          else findSlot_loop t hs s (probe (tabledim t) (unat hs) (Suc k)) (Suc (Suc k))) \<and>
   bij_betw (probe (2 ^ m) h) {..<2 ^ m} {..<2 ^ m} \<and>
   (tabledim t = 2 ^ m \<and> i < tabledim t \<and> i < length (table t) \<and> vptr (table t ! i) = 0
      \<longrightarrow> findSlot t hs s \<noteq> None) \<and>
   (table_ok t \<and> entries_ok t \<and> occupied t < tabledim t
      \<longrightarrow> (\<exists>n<tabledim t. findSlot t hs s = Some (Inr (probe (tabledim t) (unat hs) n))))"
proof (intro conjI impI)
  show "probe dim h 0 = h AND (dim - 1)" by (rule probe_0)
  show "probe dim h (Suc k) = (probe dim h k + Suc k) AND (dim - 1)" by (rule probe_Suc)
  show "findSlot t hs s = findSlot_loop t hs s (probe (tabledim t) (unat hs) 0) 1"
    by (simp add: findSlot_def probe_0)
  show "findSlot_loop t hs s (probe (tabledim t) (unat hs) k) (Suc k) =
     (case slot_hit t hs s (probe (tabledim t) (unat hs) k) of
        Inl e \<Rightarrow> Some (Inl e)
      | Inr hit \<Rightarrow>
          if hit then Some (Inr (probe (tabledim t) (unat hs) k))
          else findSlot_loop t hs s (probe (tabledim t) (unat hs) (Suc k)) (Suc (Suc k)))"
    by (subst findSlot_loop.simps) (simp add: probe_Suc split: sum.splits)
  show "bij_betw (probe (2 ^ m) h) {..<2 ^ m} {..<2 ^ m}" by (rule probe_bij)
next
  assume "tabledim t = 2 ^ m \<and> i < tabledim t \<and> i < length (table t) \<and> vptr (table t ! i) = 0"
  then show "findSlot t hs s \<noteq> None" using findSlot_terminates[of t m i hs s] by simp
next
  assume "table_ok t \<and> entries_ok t \<and> occupied t < tabledim t"
  then show "\<exists>n<tabledim t. findSlot t hs s = Some (Inr (probe (tabledim t) (unat hs) n))"
    using findSlot_total[of t hs s] by (auto simp: ret_def)
qed

theorem probe_visits_every_slot_witness:
  "bij_betw (probe (2 ^ 5) 7) {..<2 ^ 5} {..<2 ^ 5} \<and>
   tabledim table_4 = 2 ^ 5 \<and> (0::nat) < tabledim table_4 \<and> (0::nat) < length (table table_4) \<and>
   vptr (table table_4 ! 0) = 0 \<and> findSlot table_4 (calcHash key_foo) key_foo \<noteq> None \<and>
   table_ok table_4 \<and> entries_ok table_4 \<and> occupied table_4 < tabledim table_4 \<and>
   (\<exists>n<32. findSlot table_4 (calcHash key_foo) key_foo
              = Some (Inr (probe 32 (unat (calcHash key_foo)) n)))"
proof -
  note i = wfD(1)[OF wf_table_4]
  have a: "tabledim table_4 = 2 ^ 5" "(0::nat) < tabledim table_4"
    "(0::nat) < length (table table_4)" "vptr (table table_4 ! 0) = 0" "tabledim table_4 = 32"
    by (simp_all add: table_4_def empty_entry_def)
  note r = probe_visits_every_slot[of 32 7 0 table_4 "calcHash key_foo" key_foo 5 0,
      THEN conjunct2, THEN conjunct2, THEN conjunct2, THEN conjunct2]
  show ?thesis
    using r a(1-4) invD(1,3,5)[OF i]
    by (simp add: a(5))
qed



text \<open>
  Claim C2. When \<open>s\<close> is present, that is when \<^verbatim>\<open>lookup\<close> of \<open>s\<close> returns a record, \<^verbatim>\<open>insert\<close>
  of \<open>s\<close> returns the null result and the table it was called on, unchanged in every field:
  no record is allocated, and the count, the dimension, the entries and the pools are the
  same. In particular a second \<^verbatim>\<open>insert\<close> of \<open>s\<close>, after a first one that returned a record,
  does so.
\<close>

theorem insert_present_unchanged:
  "(lookup_st t s = Some (Inr (t1, Some sv)) \<longrightarrow> insert_st t s = Some (Inr (t, None))) \<and>
   (wf t \<and> handle_room t \<and> size_t_ok s \<and> insert_st t s = Some (Inr (t2, Some sv2)) \<longrightarrow>
      insert_st t2 s = Some (Inr (t2, None)))"
proof (intro conjI impI)
  assume l: "lookup_st t s = Some (Inr (t1, Some sv))"
  then obtain j e where j: "findSlot t (calcHash s) s = ret j" "entry_at (table t) j = ret e"
    "getValue t (vptr e) = Inr (Some sv)"
    unfolding lookup_st_def Let_def
    by (auto simp: obind_eq_iff ret_def fault_def split: option.splits sum.splits)
  have "vptr e \<noteq> 0" using j(3) by (auto simp: getValue_decode)
  then show "insert_st t s = Some (Inr (t, None))"
    using j(1,2) by (simp add: insert_st_def ret_def)
next
  assume a: "wf t \<and> handle_room t \<and> size_t_ok s \<and> insert_st t s = Some (Inr (t2, Some sv2))"
  note i = wfD(1)[of t]
  obtain j where j: "findSlot t (calcHash s) s = ret j" "j < length (table t)"
    using wf_find[of t] i a by blast
  show "insert_st t2 s = Some (Inr (t2, None))"
  proof (cases "vptr (table t ! j) = 0")
    case False
    then show ?thesis using present_then(2)[of t s j] i j(1) a by (simp add: ret_def)
  next
    case True
    obtain t3 where t3: "add_entry t (calcHash s) s j = ret (t3, Some (alloc_ptr t s))"
      "insert_st t3 s = ret (t3, None)"
      using add_entry_then[of t s j] a j(1) True by metis
    have "t2 = t3" using absent_then(2)[OF j True] t3(1) a by (simp add: ret_def)
    then show ?thesis using t3(2) by (simp add: ret_def)
  qed
qed

theorem insert_present_unchanged_witness:
  "wf table_4 \<and> handle_room table_4 \<and> size_t_ok key_foo \<and>
   (\<exists>t2 sv. insert_st table_4 key_foo = Some (Inr (t2, Some sv)) \<and>
      lookup_st t2 key_foo = Some (Inr (t2, Some sv)) \<and>
      insert_st t2 key_foo = Some (Inr (t2, None)))"
proof -
  obtain t1 where t1: "insert_st table_4 key_foo = ret (t1, Some (0, 0))"
    "lookup_st t1 key_foo = ret (t1, Some (0, 0))"
    using insert_foo by metis
  have a: "insert_st table_4 key_foo = Some (Inr (t1, Some (0, 0)))"
    "lookup_st t1 key_foo = Some (Inr (t1, Some (0, 0)))"
    using t1 by (simp_all add: ret_def)
  have "insert_st t1 key_foo = Some (Inr (t1, None))"
    using insert_present_unchanged[of t1 key_foo t1 "(0, 0)"] a(2) by simp
  moreover have "insert_st t1 key_foo = Some (Inr (t1, None))"
    using insert_present_unchanged[of table_4 key_foo _ _ t1 "(0, 0)"] a(1)
      wf_table_4 handle_room_table_4 size_t_ok_foo by simp
  ultimately show ?thesis using a wf_table_4 handle_room_table_4 size_t_ok_foo by blast
qed



text \<open>
  Claim C3. On a table with the structure the operations maintain, \<^verbatim>\<open>grow\<close> returns a table
  of twice the dimension, with a new entry array of that length. The pools, their number,
  the bump cursor and the count are as before. The occupied entries of the new array are
  exactly the occupied entries of the old one, as pairs of hash and handle, and there are
  as many occupied slots as before; each of them is in the slot \<^verbatim>\<open>findSlot\<close> reaches from
  its stored hash and the key of its record, so the new table has the same structure.
  Hence \<^verbatim>\<open>lookup\<close> of any string finds after the growth the record it found before, with
  the same length field and bytes, and finds nothing where it found nothing.
\<close>

theorem grow_rehashes:
  assumes "inv t"
  shows "\<exists>t'. grow t = Some (Inr t') \<and>
           tabledim t' = tabledim t * 2 \<and> length (table t') = tabledim t' \<and>
           pools t' = pools t \<and> npools t' = npools t \<and> nfill t' = nfill t \<and>
           count t' = count t \<and>
           live (table t') = live (table t) \<and> occupied t' = occupied t \<and>
           placed t' \<and> inv t' \<and>
           (\<forall>s sv. lookup_st t s = Some (Inr (t, Some sv)) \<longrightarrow>
              lookup_st t' s = Some (Inr (t', Some sv)) \<and>
              sv_length t' sv = sv_length t sv \<and>
              (\<forall>n. sv_lstring t' sv n = sv_lstring t sv n)) \<and>
           (\<forall>s. lookup_st t s = Some (Inr (t, None)) \<longrightarrow>
              lookup_st t' s = Some (Inr (t', None)))"
proof -
  obtain t' where g: "grow t = ret t'" and r: "rehashed t (length (table t)) t'"
    using grow_rehashed[OF invD(1,3,4,5)[OF assms]] by blast
  note f = grow_fields[OF g]
  note i' = grown_inv[OF assms r]
  note l = lookup_after_grow[OF assms r]
  have 1: "lookup_st t' s = Some (Inr (t', Some sv)) \<and>
              sv_length t' sv = sv_length t sv \<and>
              (\<forall>n. sv_lstring t' sv n = sv_lstring t sv n)"
    if "lookup_st t s = Some (Inr (t, Some sv))" for s sv
    using l(1)[of s sv] that sv_cong[OF f(3)] by (simp add: ret_def)
  have 2: "lookup_st t' s = Some (Inr (t', None))"
    if "lookup_st t s = Some (Inr (t, None))" for s
    using l(2)[of s] that by (simp add: ret_def)
  have "grow t = Some (Inr t')" using g by (simp add: ret_def)
  moreover have "length (table t') = tabledim t'" using f(1,6) by simp
  moreover have "placed t'" using invD(4)[OF i'(1)] .
  ultimately show ?thesis
    using f(1-5) i' 1 2 by (intro exI[of _ t'] conjI allI impI) blast+
qed

theorem grow_rehashes_witness:
  "(\<exists>t1 t'. inv t1 \<and> lookup_st t1 key_foo = Some (Inr (t1, Some (0, 0))) \<and>
      tabledim t1 = 32 \<and> count t1 = 1 \<and>
      grow t1 = Some (Inr t') \<and> tabledim t' = 64 \<and> length (table t') = 64 \<and> count t' = 1 \<and>
      lookup_st t' key_foo = Some (Inr (t', Some (0, 0)))) \<and>
   inv table_4 \<and> lookup_st table_4 key_bar = Some (Inr (table_4, None)) \<and>
   (\<exists>t'. grow table_4 = Some (Inr t') \<and> lookup_st t' key_bar = Some (Inr (t', None)))"
proof -
  obtain t1 where t1: "wf t1" "lookup_st t1 key_foo = ret (t1, Some (0, 0))"
    "count t1 = 1" "tabledim t1 = 32"
    using insert_foo by metis
  note i = wfD(1)[OF t1(1)]
  have lf: "lookup_st t1 key_foo = Some (Inr (t1, Some (0, 0)))" using t1(2) by (simp add: ret_def)
  obtain t' where g: "grow t1 = Some (Inr t')" "tabledim t' = tabledim t1 * 2"
    "length (table t') = tabledim t'" "count t' = count t1"
    "\<forall>s sv. lookup_st t1 s = Some (Inr (t1, Some sv)) \<longrightarrow>
              lookup_st t' s = Some (Inr (t', Some sv)) \<and>
              sv_length t' sv = sv_length t1 sv \<and>
              (\<forall>n. sv_lstring t' sv n = sv_lstring t1 sv n)"
    using grow_rehashes[OF i] by blast
  have "lookup_st t' key_foo = Some (Inr (t', Some (0, 0)))" using g(5) lf by blast
  then have 1: "\<exists>t1 t'. inv t1 \<and> lookup_st t1 key_foo = Some (Inr (t1, Some (0, 0))) \<and>
      tabledim t1 = 32 \<and> count t1 = 1 \<and>
      grow t1 = Some (Inr t') \<and> tabledim t' = 64 \<and> length (table t') = 64 \<and> count t' = 1 \<and>
      lookup_st t' key_foo = Some (Inr (t', Some (0, 0)))"
    using i lf g(1-4) t1(3,4) by (intro exI[of _ t1] exI[of _ t'] conjI) simp_all
  note i4 = wfD(1)[OF wf_table_4]
  note lb = lookup_empty_table[of key_bar]
  obtain t4 where g4: "grow table_4 = Some (Inr t4)"
    "\<forall>s. lookup_st table_4 s = Some (Inr (table_4, None)) \<longrightarrow>
              lookup_st t4 s = Some (Inr (t4, None))"
    using grow_rehashes[OF i4] by blast
  have "lookup_st t4 key_bar = Some (Inr (t4, None))" using g4(2) lb by blast
  then show ?thesis using 1 i4 lb g4(1) by blast
qed



end
